theory Spec2Isabelle
  imports Complex_Main "HOL-Library.Multiset" "HOL-Library.Log_Nat"
begin

section \<open>Conflict analysis of the solver: data model\<close>

text \<open>
  The development follows \<^verbatim>\<open>src/analyze.cpp\<close>.  Pointers to variable records
  (\<^verbatim>\<open>Var *\<close>) are variable indices, pointers to clauses (\<^verbatim>\<open>Clause *\<close>) are
  addresses in a clause heap, and a null pointer is \<open>None\<close>.  The tables indexed by
  variable, literal, decision level and clause address are total maps: the solver
  sizes them for every variable and level it uses.  Integers of the source
  (\<^verbatim>\<open>int\<close>, \<^verbatim>\<open>long\<close>) are unbounded integers; the counters of the source do not
  come near their bounds.  Logging (\<^verbatim>\<open>LOG\<close>, \<^verbatim>\<open>VRB\<close>) and profiling
  (\<^verbatim>\<open>START\<close>, \<^verbatim>\<open>STOP\<close>) have no effect on the solver state and are left out.
\<close>

text \<open>
  Scores and moving averages are \<^verbatim>\<open>double\<close>s.  Their type is the parameter
  \<open>'d\<close>, and the operations the code applies to them are taken as a record of
  functions, so nothing is assumed about rounding, overflow or underflow.
\<close>

record 'd arith =
  d_add :: "'d \<Rightarrow> 'd \<Rightarrow> 'd"          \<comment> \<open>\<^verbatim>\<open>x + y\<close>\<close>
  d_div :: "'d \<Rightarrow> 'd \<Rightarrow> 'd"          \<comment> \<open>\<^verbatim>\<open>x / y\<close>\<close>
  d_less :: "'d \<Rightarrow> 'd \<Rightarrow> bool"       \<comment> \<open>\<^verbatim>\<open>x < y\<close>\<close>
  d_gt_1e100 :: "'d \<Rightarrow> bool"        \<comment> \<open>\<^verbatim>\<open>x > 1e100\<close>\<close>
  d_one :: "'d"                     \<comment> \<open>the constant \<^verbatim>\<open>1\<close>\<close>

text \<open>The variable record \<^verbatim>\<open>Var\<close>, with the fields this file reads and writes.\<close>

record 'd var =
  v_level :: int
  v_trail :: int
  v_reason :: "nat option"
  v_seen :: bool
  v_score :: 'd
  v_bumped :: int
  v_prev :: "nat option"
  v_next :: "nat option"

text \<open>The per-level record \<^verbatim>\<open>Level\<close>.\<close>

record level_rec =
  l_seen :: int
  l_trail :: int

text \<open>A clause object; its \<^verbatim>\<open>size\<close> is the number of its literals.\<close>

record clause_rec =
  literals :: "int list"
  glue :: int
  redundant :: bool
  extended :: bool
  c_resolved :: int

definition size_of :: "clause_rec \<Rightarrow> int" where
  "size_of c = int (length (literals c))"

record queue_rec =
  q_first :: "nat option"
  q_last :: "nat option"
  q_assigned :: "nat option"

record stats_rec =
  s_fixed :: int
  s_rescored :: int
  s_bumped :: int
  s_resolved :: int
  s_units :: int
  s_binaries :: int

record 'd opts_rec =
  bumpsort :: int
  decay :: 'd
  keepsize :: int
  keepglue :: int
  minimize :: bool

datatype proof_event = TraceEmptyClause | TraceUnitClause int

text \<open>
  What stops a call: a failed \<^verbatim>\<open>assert\<close>, the trail iterator stepping before the
  first element of the trail, or the dereference of a null reason.
\<close>

datatype error = AssertionViolated | TrailUnderflow | NullReason

text \<open>
  The solver state \<^verbatim>\<open>Internal\<close>.  The proof tracer is \<open>None\<close> when the pointer
  \<^verbatim>\<open>proof\<close> is null and otherwise holds the events traced so far.
\<close>

record 'd internal =
  level :: int
  unsat :: bool
  iterating :: bool
  conflict :: "nat option"
  proof_trace :: "proof_event list option"
  max_var :: nat
  vtab :: "nat \<Rightarrow> 'd var"
  vals :: "nat \<Rightarrow> int"
  trail :: "int list"
  control :: "int \<Rightarrow> level_rec"
  clauses :: "nat \<Rightarrow> clause_rec"
  seen :: "int list"
  levels :: "int list"
  clause :: "int list"
  resolved :: "nat list"
  scinc :: 'd
  queue :: queue_rec
  stats :: stats_rec
  opts :: "'d opts_rec"
  fast_glue_avg :: 'd
  slow_glue_avg :: 'd
  jump_avg :: 'd

text \<open>
  The collaborators of the analysis whose code is in other files of the solver are
  parameters: clause minimisation, the clause database, the trail manager, the
  debugging check of the learned clause, \<^verbatim>\<open>Level::reset\<close> and the macro
  \<^verbatim>\<open>UPDATE_AVG\<close> (which receives the name of the average it updates).
\<close>

record 'd ext =
  minimize_clause :: "'d internal \<Rightarrow> 'd internal"
  new_learned_clause :: "int \<Rightarrow> 'd internal \<Rightarrow> nat \<times> 'd internal"
  backtrack :: "int \<Rightarrow> 'd internal \<Rightarrow> 'd internal"
  assign :: "int \<Rightarrow> nat option \<Rightarrow> 'd internal \<Rightarrow> 'd internal"
  check_clause :: "'d internal \<Rightarrow> 'd internal"
  level_reset :: "level_rec \<Rightarrow> level_rec"
  update_avg :: "string \<Rightarrow> 'd \<Rightarrow> int \<Rightarrow> 'd"

section \<open>Accessors\<close>

text \<open>\<^verbatim>\<open>vidx\<close>: the variable index of a literal; \<^verbatim>\<open>var (lit)\<close> is \<^verbatim>\<open>vtab[vidx (lit)]\<close>.\<close>

definition vidx :: "int \<Rightarrow> nat" where
  "vidx lit = nat \<bar>lit\<bar>"

definition var :: "'d internal \<Rightarrow> int \<Rightarrow> 'd var" where
  "var st lit = vtab st (vidx lit)"

text \<open>
  Modelled from the spec: \<^verbatim>\<open>val\<close> is declared outside this file, and the spec
  says that a variable is assigned exactly when it has a value.  As this file uses
  it, \<^verbatim>\<open>vals[idx]\<close> is zero for an unassigned variable and \<^verbatim>\<open>val (lit) < 0\<close> says
  that the literal is falsified: the value of a literal is the value of its
  variable, negated for a negative literal.
\<close>

definition val :: "'d internal \<Rightarrow> int \<Rightarrow> int" where
  "val st lit = (if lit < 0 then - vals st (vidx lit) else vals st (vidx lit))"

text \<open>
  \<^verbatim>\<open>std::sort\<close> with a comparator, as insertion sort.  Elements that the comparator
  does not order keep their relative order; the library leaves their order open.
\<close>

fun insort_by :: "('a \<Rightarrow> 'a \<Rightarrow> bool) \<Rightarrow> 'a \<Rightarrow> 'a list \<Rightarrow> 'a list" where
  "insort_by cmp x [] = [x]"
| "insort_by cmp x (y # ys) =
     (if cmp y x then y # insort_by cmp x ys else x # y # ys)"

definition sort_by :: "('a \<Rightarrow> 'a \<Rightarrow> bool) \<Rightarrow> 'a list \<Rightarrow> 'a list" where
  "sort_by cmp xs = foldr (insort_by cmp) xs []"

section \<open>Learning the empty clause and unit clauses\<close>

definition trace :: "proof_event \<Rightarrow> 'd internal \<Rightarrow> 'd internal" where
  "trace ev st =
     (case proof_trace st of
        None \<Rightarrow> st
      | Some evs \<Rightarrow> st\<lparr>proof_trace := Some (evs @ [ev])\<rparr>)"

definition learn_empty_clause :: "'d internal \<Rightarrow> error + 'd internal" where
  "learn_empty_clause st =
     (if unsat st then Inl AssertionViolated
      else Inr ((trace TraceEmptyClause st)\<lparr>unsat := True\<rparr>))"

definition learn_unit_clause :: "int \<Rightarrow> 'd internal \<Rightarrow> 'd internal" where
  "learn_unit_clause lit st =
     (let st1 = trace (TraceUnitClause lit) st
      in st1\<lparr>iterating := True,
             stats := (stats st1)\<lparr>s_fixed := s_fixed (stats st1) + 1\<rparr>\<rparr>)"

section \<open>Scores and the decision queue\<close>

definition rescore :: "'d arith \<Rightarrow> 'd internal \<Rightarrow> 'd internal" where
  "rescore ar st =
     st\<lparr>stats := (stats st)\<lparr>s_rescored := s_rescored (stats st) + 1\<rparr>,
        vtab := (\<lambda>i. if 1 \<le> i \<and> i \<le> max_var st
                      then (vtab st i)\<lparr>v_score := d_div ar (v_score (vtab st i)) (scinc st)\<rparr>
                      else vtab st i),
        scinc := d_one ar\<rparr>"

text \<open>
  Modelled from the spec: \<^verbatim>\<open>Queue::dequeue\<close> and \<^verbatim>\<open>Queue::enqueue\<close> are declared
  outside this file.  The queue is a doubly linked list of variable records through
  their \<^verbatim>\<open>prev\<close> and \<^verbatim>\<open>next\<close> links; the variable without \<^verbatim>\<open>prev\<close> is the front
  and the variable without \<^verbatim>\<open>next\<close> is the tail.  \<open>dequeue\<close> unlinks a variable,
  \<open>enqueue\<close> relinks it at the front.
\<close>

definition set_prev :: "nat \<Rightarrow> nat option \<Rightarrow> 'd internal \<Rightarrow> 'd internal" where
  "set_prev v p st = st\<lparr>vtab := (vtab st)(v := (vtab st v)\<lparr>v_prev := p\<rparr>)\<rparr>"

definition set_next :: "nat \<Rightarrow> nat option \<Rightarrow> 'd internal \<Rightarrow> 'd internal" where
  "set_next v n st = st\<lparr>vtab := (vtab st)(v := (vtab st v)\<lparr>v_next := n\<rparr>)\<rparr>"

definition dequeue :: "nat \<Rightarrow> 'd internal \<Rightarrow> 'd internal" where
  "dequeue v st =
     (let p = v_prev (vtab st v);
          n = v_next (vtab st v);
          st1 = (case p of
                   Some pv \<Rightarrow> set_next pv n st
                 | None \<Rightarrow> st\<lparr>queue := (queue st)\<lparr>q_first := n\<rparr>\<rparr>)
      in (case n of
            Some nv \<Rightarrow> set_prev nv p st1
          | None \<Rightarrow> st1\<lparr>queue := (queue st1)\<lparr>q_last := p\<rparr>\<rparr>))"

definition enqueue :: "nat \<Rightarrow> 'd internal \<Rightarrow> 'd internal" where
  "enqueue v st =
     (let f = q_first (queue st);
          st1 = set_next v f (set_prev v None st);
          st2 = (case f of
                   Some fv \<Rightarrow> set_prev fv (Some v) st1
                 | None \<Rightarrow> st1\<lparr>queue := (queue st1)\<lparr>q_last := Some v\<rparr>\<rparr>)
      in st2\<lparr>queue := (queue st2)\<lparr>q_first := Some v\<rparr>\<rparr>)"

text \<open>\<^verbatim>\<open>bump_variable\<close>; the argument is the index of the variable record.\<close>

definition bump_variable :: "'d arith \<Rightarrow> nat \<Rightarrow> 'd internal \<Rightarrow> 'd internal" where
  "bump_variable ar v st =
     (if v_next (vtab st v) = None then st
      else
        let st1 = (if q_assigned (queue st) = Some v
                   then st\<lparr>queue := (queue st)\<lparr>q_assigned :=
                          (case v_prev (vtab st v) of
                             Some p \<Rightarrow> Some p
                           | None \<Rightarrow> v_next (vtab st v))\<rparr>\<rparr>
                   else st);
            st2 = enqueue v (dequeue v st1);
            st3 = st2\<lparr>stats := (stats st2)\<lparr>s_bumped := s_bumped (stats st2) + 1\<rparr>\<rparr>;
            st4 = st3\<lparr>vtab := (vtab st3)(v := (vtab st3 v)\<lparr>v_bumped := s_bumped (stats st3)\<rparr>)\<rparr>;
            st5 = st4\<lparr>vtab := (vtab st4)(v := (vtab st4 v)\<lparr>v_score :=
                          d_add ar (v_score (vtab st4 v)) (scinc st4)\<rparr>)\<rparr>;
            st6 = (if d_gt_1e100 ar (v_score (vtab st5 v)) then rescore ar st5 else st5)
        in if vals st6 v = 0
           then st6\<lparr>queue := (queue st6)\<lparr>q_assigned := Some v\<rparr>\<rparr>
           else st6)"

text \<open>The comparators of the bump orders.\<close>

definition bumped_plus_trail_smaller :: "'d internal \<Rightarrow> int \<Rightarrow> int \<Rightarrow> bool" where
  "bumped_plus_trail_smaller st a b =
     (v_bumped (var st a) + v_trail (var st a) < v_bumped (var st b) + v_trail (var st b))"

definition bumped_earlier :: "'d internal \<Rightarrow> int \<Rightarrow> int \<Rightarrow> bool" where
  "bumped_earlier st a b = (v_bumped (var st a) < v_bumped (var st b))"

definition trail_smaller :: "'d internal \<Rightarrow> int \<Rightarrow> int \<Rightarrow> bool" where
  "trail_smaller st a b = (v_trail (var st a) < v_trail (var st b))"

definition score_smaller :: "'d arith \<Rightarrow> 'd internal \<Rightarrow> int \<Rightarrow> int \<Rightarrow> bool" where
  "score_smaller ar st a b = d_less ar (v_score (var st a)) (v_score (var st b))"

text \<open>
  \<^verbatim>\<open>sort_seen\<close>.  In the source the labels of the cases 3, 4 and 5 end in a
  semicolon; they are read as the case labels they stand for.
\<close>

definition sort_seen :: "'d arith \<Rightarrow> 'd internal \<Rightarrow> 'd internal" where
  "sort_seen ar st =
     (if bumpsort (opts st) = 1 then st\<lparr>seen := sort_by (bumped_earlier st) (seen st)\<rparr>
      else if bumpsort (opts st) = 2 then st\<lparr>seen := sort_by (trail_smaller st) (seen st)\<rparr>
      else if bumpsort (opts st) = 3
        then st\<lparr>seen := sort_by (bumped_plus_trail_smaller st) (seen st)\<rparr>
      else if bumpsort (opts st) = 4 then st\<lparr>seen := sort_by (score_smaller ar st) (seen st)\<rparr>
      else if bumpsort (opts st) = 5 then st\<lparr>seen := rev (seen st)\<rparr>
      else st)"

text \<open>The loop of \<^verbatim>\<open>bump_and_clear_seen_variables\<close> over the seen literals.\<close>

fun bump_seen :: "'d arith \<Rightarrow> int list \<Rightarrow> 'd internal \<Rightarrow> error + 'd internal" where
  "bump_seen ar [] st = Inr st"
| "bump_seen ar (lit # lits) st =
     (if \<not> v_seen (var st lit) then Inl AssertionViolated
      else bump_seen ar lits
             (bump_variable ar (vidx lit)
                (st\<lparr>vtab := (vtab st)(vidx lit := (var st lit)\<lparr>v_seen := False\<rparr>)\<rparr>)))"

definition bump_and_clear_seen_variables ::
  "'d arith \<Rightarrow> 'd internal \<Rightarrow> error + 'd internal" where
  "bump_and_clear_seen_variables ar st =
     (let st1 = sort_seen ar st
      in case bump_seen ar (seen st1) st1 of
           Inl e \<Rightarrow> Inl e
         | Inr st2 \<Rightarrow>
             let st3 = st2\<lparr>seen := []\<rparr>;
                 st4 = st3\<lparr>scinc := d_div ar (scinc st3) (decay (opts st3))\<rparr>
             in Inr (if d_gt_1e100 ar (scinc st4) then rescore ar st4 else st4))"

section \<open>Recency stamps of clauses\<close>

text \<open>
  Modelled from the spec: the comparator \<^verbatim>\<open>resolved_earlier\<close> is declared outside
  this file; the list is sorted by existing timestamp, ascending.
\<close>

definition resolved_earlier :: "'d internal \<Rightarrow> nat \<Rightarrow> nat \<Rightarrow> bool" where
  "resolved_earlier st a b = (c_resolved (clauses st a) < c_resolved (clauses st b))"

text \<open>The loop of \<^verbatim>\<open>bump_resolved_clauses\<close> over the sorted list.\<close>

fun stamp_resolved :: "nat list \<Rightarrow> 'd internal \<Rightarrow> 'd internal" where
  "stamp_resolved [] st = st"
| "stamp_resolved (c # cs) st =
     (let st1 = st\<lparr>stats := (stats st)\<lparr>s_resolved := s_resolved (stats st) + 1\<rparr>\<rparr>
      in stamp_resolved cs
           (st1\<lparr>clauses := (clauses st1)
                   (c := (clauses st1 c)\<lparr>c_resolved := s_resolved (stats st1)\<rparr>)\<rparr>))"

definition bump_resolved_clauses :: "'d internal \<Rightarrow> 'd internal" where
  "bump_resolved_clauses st =
     (let st1 = st\<lparr>resolved := sort_by (resolved_earlier st) (resolved st)\<rparr>
      in (stamp_resolved (resolved st1) st1)\<lparr>resolved := []\<rparr>)"

definition resolve_clause :: "nat \<Rightarrow> 'd internal \<Rightarrow> error + 'd internal" where
  "resolve_clause c st =
     (if \<not> redundant (clauses st c) then Inr st
      else if size_of (clauses st c) \<le> keepsize (opts st) then Inr st
      else if glue (clauses st c) \<le> keepglue (opts st) then Inr st
      else if \<not> extended (clauses st c) then Inl AssertionViolated
      else Inr (st\<lparr>resolved := resolved st @ [c]\<rparr>))"

section \<open>Deriving the first UIP clause\<close>

definition analyze_literal :: "int \<Rightarrow> 'd internal \<Rightarrow> error + (bool \<times> 'd internal)" where
  "analyze_literal lit st =
     (let v = var st lit in
      if v_seen v then Inr (False, st)
      else if v_level v = 0 then Inr (False, st)
      else if \<not> val st lit < 0 then Inl AssertionViolated
      else
        let st1 = (if v_level v < level st then st\<lparr>clause := clause st @ [lit]\<rparr> else st);
            l = control st1 (v_level v);
            st2 = (if l_seen l = 0 then st1\<lparr>levels := levels st1 @ [v_level v]\<rparr> else st1);
            l1 = l\<lparr>l_seen := l_seen l + 1\<rparr>;
            l2 = (if v_trail v < l_trail l1 then l1\<lparr>l_trail := v_trail v\<rparr> else l1);
            st3 = st2\<lparr>control := (control st2)(v_level v := l2)\<rparr>;
            st4 = st3\<lparr>vtab := (vtab st3)(vidx lit := v\<lparr>v_seen := True\<rparr>)\<rparr>;
            st5 = st4\<lparr>seen := seen st4 @ [lit]\<rparr>
        in Inr (v_level v = level st, st5))"

fun clear_level_list :: "'d ext \<Rightarrow> int list \<Rightarrow> 'd internal \<Rightarrow> 'd internal" where
  "clear_level_list ex [] st = st"
| "clear_level_list ex (i # is) st =
     clear_level_list ex is (st\<lparr>control := (control st)(i := level_reset ex (control st i))\<rparr>)"

definition clear_levels :: "'d ext \<Rightarrow> 'd internal \<Rightarrow> 'd internal" where
  "clear_levels ex st = (clear_level_list ex (levels st) st)\<lparr>levels := []\<rparr>"

definition trail_greater_than :: "'d internal \<Rightarrow> int \<Rightarrow> int \<Rightarrow> bool" where
  "trail_greater_than st a b = (v_trail (var st a) > v_trail (var st b))"

text \<open>
  The scan of the literals of the current reason in \<^verbatim>\<open>analyze\<close>: \<open>opn\<close> is the
  counter \<^verbatim>\<open>open\<close>.
\<close>

fun analyze_literals :: "int list \<Rightarrow> int \<Rightarrow> 'd internal \<Rightarrow> error + (int \<times> 'd internal)" where
  "analyze_literals [] opn st = Inr (opn, st)"
| "analyze_literals (lit # lits) opn st =
     (case analyze_literal lit st of
        Inl e \<Rightarrow> Inl e
      | Inr (b, st1) \<Rightarrow> analyze_literals lits (if b then opn + 1 else opn) st1)"

text \<open>
  The walk \<^verbatim>\<open>while (!var (uip = *--i).seen)\<close> down the trail from position \<open>i\<close>:
  the position and the literal it stops at, or \<open>None\<close> when it steps before the
  first element.
\<close>

fun find_seen :: "'d internal \<Rightarrow> nat \<Rightarrow> (nat \<times> int) option" where
  "find_seen st 0 = None"
| "find_seen st (Suc k) =
     (if v_seen (var st (trail st ! k)) then Some (k, trail st ! k) else find_seen st k)"

text \<open>
  The loop \<^verbatim>\<open>for (;;)\<close> of \<^verbatim>\<open>analyze\<close>, entered with the clause \<open>r\<close> to scan, the
  counter \<open>opn\<close> and the trail position \<open>i\<close>; it returns the state and the first
  UIP.
\<close>

function analyze_loop ::
  "'d internal \<Rightarrow> nat \<Rightarrow> int \<Rightarrow> nat \<Rightarrow> error + ('d internal \<times> int)" where
  "analyze_loop st r opn i =
     (case analyze_literals (literals (clauses st r)) opn st of
        Inl e \<Rightarrow> Inl e
      | Inr (opn1, st1) \<Rightarrow>
          (case find_seen st1 i of
             None \<Rightarrow> Inl TrailUnderflow
           | Some (k, uip) \<Rightarrow>
               if opn1 - 1 = 0 then Inr (st1, uip)
               else (case v_reason (var st1 uip) of
                       None \<Rightarrow> Inl NullReason
                     | Some r1 \<Rightarrow> analyze_loop st1 r1 (opn1 - 1) k)))"
  by pat_completeness auto
termination
proof -
  have less: "find_seen s j = Some (k, u) \<Longrightarrow> k < j"
    for s :: "'d internal" and j k u
    by (induction j) (auto split: if_splits)
  show ?thesis
    by (relation "measure (\<lambda>(st, r, opn, i). i)") (auto dest: less)
qed

declare analyze_loop.simps [simp del]

text \<open>
  The first part of \<^verbatim>\<open>analyze\<close> at a decision level above the root, from
  \<^verbatim>\<open>Clause * reason = conflict\<close> to \<^verbatim>\<open>clause.push_back (-uip)\<close>: the state with the
  first UIP clause in the buffer \<open>clause\<close>, and the first UIP.
\<close>

definition derive_first_uip_clause ::
  "nat \<Rightarrow> 'd internal \<Rightarrow> error + ('d internal \<times> int)" where
  "derive_first_uip_clause c st =
     (case resolve_clause c st of
        Inl e \<Rightarrow> Inl e
      | Inr st1 \<Rightarrow>
          (case analyze_loop st1 c 0 (length (trail st1)) of
             Inl e \<Rightarrow> Inl e
           | Inr (st2, uip) \<Rightarrow> Inr (st2\<lparr>clause := clause st2 @ [- uip]\<rparr>, uip)))"

text \<open>
  The rest of \<^verbatim>\<open>analyze\<close> is split at the points the properties refer to.
  \<open>analyze_glue\<close> runs from \<^verbatim>\<open>check_clause ()\<close> to the minimisation and
  returns the glue with the state.
\<close>

definition analyze_glue :: "'d ext \<Rightarrow> 'd internal \<Rightarrow> int \<times> 'd internal" where
  "analyze_glue ex st =
     (let st1 = bump_resolved_clauses (check_clause ex st);
          g = int (length (levels st1));
          st2 = st1\<lparr>fast_glue_avg := update_avg ex ''fast_glue_avg'' (fast_glue_avg st1) g\<rparr>;
          st3 = st2\<lparr>slow_glue_avg := update_avg ex ''slow_glue_avg'' (slow_glue_avg st2) g\<rparr>
      in (g, if minimize (opts st3) then minimize_clause ex st3 else st3))"

text \<open>The two statistics \<^verbatim>\<open>stats.units\<close> and \<^verbatim>\<open>stats.binaries\<close>.\<close>

definition analyze_count :: "'d internal \<Rightarrow> 'd internal" where
  "analyze_count st =
     (let st1 = st\<lparr>stats := (stats st)\<lparr>s_units := s_units (stats st)
                     + (if length (clause st) = 1 then 1 else 0)\<rparr>\<rparr>
      in st1\<lparr>stats := (stats st1)\<lparr>s_binaries := s_binaries (stats st1)
                     + (if length (clause st1) = 2 then 1 else 0)\<rparr>\<rparr>)"

text \<open>
  The driving clause and the back jump level, from
  \<^verbatim>\<open>Clause * driving_clause = 0\<close> to the end of the conditional.
\<close>

definition analyze_jump ::
  "'d ext \<Rightarrow> int \<Rightarrow> 'd internal \<Rightarrow> nat option \<times> int \<times> 'd internal" where
  "analyze_jump ex g st =
     (if length (clause st) > 1 then
        let st1 = st\<lparr>clause := sort_by (trail_greater_than st) (clause st)\<rparr>;
            (c, st2) = new_learned_clause ex g st1
        in (Some c, v_level (var st2 (clause st2 ! 1)), st2)
      else (None, 0, st))"

text \<open>
  The end of \<^verbatim>\<open>analyze\<close>, from \<^verbatim>\<open>bump_and_clear_seen_variables ()\<close> to
  \<^verbatim>\<open>conflict = 0\<close>: bumping and cleaning up.
\<close>

definition analyze_cleanup :: "'d ext \<Rightarrow> 'd arith \<Rightarrow> 'd internal \<Rightarrow> error + 'd internal" where
  "analyze_cleanup ex ar st =
     (case bump_and_clear_seen_variables ar st of
        Inl e \<Rightarrow> Inl e
      | Inr st1 \<Rightarrow> Inr ((clear_levels ex (st1\<lparr>clause := []\<rparr>))\<lparr>conflict := None\<rparr>))"

text \<open>
  From \<^verbatim>\<open>UPDATE_AVG (jump_avg, jump)\<close> to the end: back jump, assignment of the
  flipped literal, bumping and cleaning up.
\<close>

definition analyze_finish ::
  "'d ext \<Rightarrow> 'd arith \<Rightarrow> int \<Rightarrow> nat option \<Rightarrow> int \<Rightarrow> 'd internal \<Rightarrow> error + 'd internal" where
  "analyze_finish ex ar uip driving_clause jump st =
     (let st1 = st\<lparr>jump_avg := update_avg ex ''jump_avg'' (jump_avg st) jump\<rparr>;
          st2 = assign ex (- uip) driving_clause (backtrack ex jump st1)
      in analyze_cleanup ex ar st2)"

section \<open>The analysis of a conflict\<close>

definition analyze :: "'d ext \<Rightarrow> 'd arith \<Rightarrow> 'd internal \<Rightarrow> error + 'd internal" where
  "analyze ex ar st =
     (case conflict st of
        None \<Rightarrow> Inl AssertionViolated
      | Some c \<Rightarrow>
          if level st = 0 then
            (case learn_empty_clause st of
               Inl e \<Rightarrow> Inl e
             | Inr st1 \<Rightarrow> Inr (st1\<lparr>conflict := None\<rparr>))
          else
            (case derive_first_uip_clause c st of
               Inl e \<Rightarrow> Inl e
             | Inr (st1, uip) \<Rightarrow>
                 let (g, st2) = analyze_glue ex st1;
                     (driving_clause, jump, st3) = analyze_jump ex g (analyze_count st2)
                 in analyze_finish ex ar uip driving_clause jump st3))"

section \<open>The queue as a list\<close>

text \<open>
  \<open>seg vt p q e\<close>: the variables of the list \<open>q\<close> are linked in this order, the
  first with \<^verbatim>\<open>prev\<close> link \<open>p\<close> and the last with \<^verbatim>\<open>next\<close> link \<open>e\<close>.
\<close>

fun seg :: "(nat \<Rightarrow> 'd var) \<Rightarrow> nat option \<Rightarrow> nat list \<Rightarrow> nat option \<Rightarrow> bool" where
  "seg vt p [] e = True"
| "seg vt p (x # xs) e =
     (v_prev (vt x) = p \<and>
      v_next (vt x) = (case xs of [] \<Rightarrow> e | y # _ \<Rightarrow> Some y) \<and>
      seg vt (Some x) xs e)"

text \<open>
  \<open>queue_list st q\<close>: the queue of the state holds the variables of \<open>q\<close>, from
  the front to the tail, each once.
\<close>

definition queue_list :: "'d internal \<Rightarrow> nat list \<Rightarrow> bool" where
  "queue_list st q =
     (distinct q \<and> seg (vtab st) None q None \<and>
      q_first (queue st) = (case q of [] \<Rightarrow> None | x # _ \<Rightarrow> Some x) \<and>
      q_last (queue st) = (if q = [] then None else Some (last q)))"

text \<open>
  The frontier: when a variable of the queue is unassigned, \<^verbatim>\<open>queue.assigned\<close>
  points to an unassigned variable of the queue and every variable in front of it
  is assigned.
\<close>

definition frontier_ok :: "'d internal \<Rightarrow> nat list \<Rightarrow> bool" where
  "frontier_ok st q =
     ((\<exists>u \<in> set q. vals st u = 0) \<longrightarrow>
      (\<exists>a. q_assigned (queue st) = Some a \<and> a \<in> set q \<and> vals st a = 0 \<and>
           (\<forall>u \<in> set (takeWhile (\<lambda>x. x \<noteq> a) q). vals st u \<noteq> 0)))"

text \<open>
  The queue invariant: the queue is a list, a variable outside it (a detached
  variable) has no \<^verbatim>\<open>next\<close> link, and the frontier is right.
\<close>

definition queue_inv :: "'d internal \<Rightarrow> nat list \<Rightarrow> bool" where
  "queue_inv st q =
     (queue_list st q \<and> (\<forall>x. x \<notin> set q \<longrightarrow> v_next (vtab st x) = None) \<and> frontier_ok st q)"

text \<open>A sequence of calls of \<open>bump_variable\<close>.\<close>

fun bump_sequence :: "'d arith \<Rightarrow> nat list \<Rightarrow> 'd internal \<Rightarrow> 'd internal" where
  "bump_sequence ar [] st = st"
| "bump_sequence ar (v # vs) st = bump_sequence ar vs (bump_variable ar v st)"

text \<open>
  The state in the middle of \<open>bump_variable\<close>, after the frontier has moved off
  the variable and the variable is relinked.
\<close>

definition relinked :: "nat \<Rightarrow> 'd internal \<Rightarrow> 'd internal" where
  "relinked v st =
     enqueue v (dequeue v
       (if q_assigned (queue st) = Some v
        then st\<lparr>queue := (queue st)\<lparr>q_assigned :=
               (case v_prev (vtab st v) of Some p \<Rightarrow> Some p | None \<Rightarrow> v_next (vtab st v))\<rparr>\<rparr>
        else st))"

section \<open>The state at a conflict\<close>

text \<open>The decision level of the variable of a literal.\<close>

definition lev :: "'d internal \<Rightarrow> int \<Rightarrow> int" where
  "lev st l = v_level (var st l)"

text \<open>
  What the derivation of the first UIP clause only reads: the trail, the level,
  the values, the clauses, and the level and reason of every variable.
\<close>

definition static_eq :: "'d internal \<Rightarrow> 'd internal \<Rightarrow> bool" where
  "static_eq s s' =
     (trail s' = trail s \<and> level s' = level s \<and> vals s' = vals s \<and> clauses s' = clauses s \<and>
      (\<forall>x. v_level (vtab s' x) = v_level (vtab s x) \<and> v_reason (vtab s' x) = v_reason (vtab s x)))"

text \<open>
  What the trail manager guarantees at a conflict above the root level: every
  variable is on the trail once; the literals of the trail are true; their levels
  lie between 0 and the current level and grow along the trail; the literals of a
  reason other than the implied literal are false and were assigned before it; and
  a literal of the current level without a reason (the decision) is the first of
  its level.
\<close>

definition trail_ok :: "'d internal \<Rightarrow> bool" where
  "trail_ok st =
     (0 < level st \<and> distinct (map vidx (trail st)) \<and>
      (\<forall>t \<in> set (trail st). t \<noteq> 0 \<and> 0 < val st t \<and> 0 \<le> lev st t \<and> lev st t \<le> level st) \<and>
      (\<forall>k \<in> {..<length (trail st)}. \<forall>j \<in> {..<k}.
         lev st (trail st ! j) \<le> lev st (trail st ! k)) \<and>
      (\<forall>k \<in> {..<length (trail st)}.
         case v_reason (var st (trail st ! k)) of
           Some r \<Rightarrow>
             (\<forall>l \<in> set (literals (clauses st r)).
                l = trail st ! k \<or> (\<exists>j \<in> {..<k}. trail st ! j = - l))
         | None \<Rightarrow>
             lev st (trail st ! k) = level st \<longrightarrow>
             (\<forall>j \<in> {..<k}. lev st (trail st ! j) < level st)))"

text \<open>
  The state in which \<open>analyze\<close> is called with the conflict \<open>c\<close>: the trail is as
  above; every literal of the conflict is falsified by the trail and one of them
  is of the current level; no variable is marked seen and the clause buffer is
  empty, as the last analysis left them; and a conflict that is stamped has the
  field for its stamp (the assertion of \<open>resolve_clause\<close>).
\<close>

definition analysis_ready :: "'d internal \<Rightarrow> nat \<Rightarrow> bool" where
  "analysis_ready st c =
     (trail_ok st \<and>
      (\<forall>l \<in> set (literals (clauses st c)). - l \<in> set (trail st)) \<and>
      (\<exists>l \<in> set (literals (clauses st c)). lev st l = level st) \<and>
      (\<forall>x. \<not> v_seen (vtab st x)) \<and> clause st = [] \<and>
      (redundant (clauses st c) \<and> keepsize (opts st) < size_of (clauses st c) \<and>
       keepglue (opts st) < glue (clauses st c) \<longrightarrow> extended (clauses st c)))"

text \<open>
  Truth of literals and clauses under a valuation of the variables, and
  entailment of a clause by a formula (a list of clauses).
\<close>

definition lit_true :: "(nat \<Rightarrow> bool) \<Rightarrow> int \<Rightarrow> bool" where
  "lit_true M l = (if 0 < l then M (vidx l) else \<not> M (vidx l))"

definition clause_true :: "(nat \<Rightarrow> bool) \<Rightarrow> int list \<Rightarrow> bool" where
  "clause_true M C = (\<exists>l \<in> set C. lit_true M l)"

definition entails :: "int list list \<Rightarrow> int list \<Rightarrow> bool" where
  "entails F C = (\<forall>M. (\<forall>D \<in> set F. clause_true M D) \<longrightarrow> clause_true M C)"

text \<open>
  A valuation that satisfies the reasons of the trail and the literals of level 0,
  and one that satisfies the conflict as well.
\<close>

definition backed :: "'d internal \<Rightarrow> (nat \<Rightarrow> bool) \<Rightarrow> bool" where
  "backed st M =
     (\<forall>t \<in> set (trail st).
        (case v_reason (var st t) of
           Some r \<Rightarrow> clause_true M (literals (clauses st r))
         | None \<Rightarrow> True) \<and>
        (lev st t = 0 \<longrightarrow> lit_true M t))"

definition supported :: "'d internal \<Rightarrow> nat \<Rightarrow> (nat \<Rightarrow> bool) \<Rightarrow> bool" where
  "supported st c M = (clause_true M (literals (clauses st c)) \<and> backed st M)"

text \<open>
  The invariant of the loop.  \<open>pending s i\<close> are the trail positions below \<open>i\<close>
  of the seen variables of the current level: the literals still to resolve.
  \<open>lowseen\<close>: the falsified literal of every seen variable of a lower level is
  in the clause buffer.  \<open>lowbuf\<close>: the buffer holds literals of lower levels
  only.  \<open>step_rel\<close> relates two states of one scan, \<open>resolvent\<close> is the truth of
  the clause the loop stands for when it is entered with the clause \<open>r\<close> at
  position \<open>i\<close>, and \<open>loop_inv\<close> is what holds then.
\<close>

definition pending :: "'d internal \<Rightarrow> nat \<Rightarrow> nat set" where
  "pending s i = {k. k < i \<and> v_seen (var s (trail s ! k)) \<and> lev s (trail s ! k) = level s}"

definition lowseen :: "'d internal \<Rightarrow> bool" where
  "lowseen s =
     (\<forall>k < length (trail s). v_seen (var s (trail s ! k)) \<and> lev s (trail s ! k) < level s
        \<longrightarrow> - (trail s ! k) \<in> set (clause s))"

definition lowbuf :: "'d internal \<Rightarrow> bool" where
  "lowbuf s = (\<forall>l \<in> set (clause s). lev s l < level s)"

definition step_rel :: "nat \<Rightarrow> 'd internal \<Rightarrow> int \<Rightarrow> 'd internal \<Rightarrow> int \<Rightarrow> bool" where
  "step_rel i s opn s' opn' =
     (static_eq s s' \<and> (\<forall>x. v_seen (vtab s x) \<longrightarrow> v_seen (vtab s' x)) \<and>
      (lowseen s \<longrightarrow> lowseen s') \<and> (lowbuf s \<longrightarrow> lowbuf s') \<and>
      set (clause s) \<subseteq> set (clause s') \<and>
      opn' - int (card (pending s' i)) = opn - int (card (pending s i)))"

definition resolvent :: "'d internal \<Rightarrow> nat \<Rightarrow> nat \<Rightarrow> (nat \<Rightarrow> bool) \<Rightarrow> bool" where
  "resolvent s r i M =
     (clause_true M (clause s) \<or>
      (\<exists>k \<in> pending s i. lit_true M (- (trail s ! k))) \<or>
      (\<exists>l \<in> set (literals (clauses s r)).
         \<not> (i < length (trail s) \<and> l = trail s ! i) \<and> lit_true M l))"

definition loop_inv :: "'d internal \<Rightarrow> nat \<Rightarrow> int \<Rightarrow> nat \<Rightarrow> bool" where
  "loop_inv s r opn i =
     (trail_ok s \<and> i \<le> length (trail s) \<and>
      (\<forall>l \<in> set (literals (clauses s r)).
         (i < length (trail s) \<and> l = trail s ! i \<and> v_seen (var s l)) \<or>
         (\<exists>j < i. trail s ! j = - l)) \<and>
      opn = int (card (pending s i)) \<and>
      (1 \<le> opn \<or>
       (\<exists>l \<in> set (literals (clauses s r)). lev s l = level s \<and> (\<exists>j < i. trail s ! j = - l))) \<and>
      lowseen s \<and> lowbuf s)"

section \<open>A model of the doubles\<close>

text \<open>
  For the examples with rounding, a \<^verbatim>\<open>double\<close> is the rational number it stands
  for, and the result of an operation is the exact result rounded as IEEE 754
  binary64 does in its default mode: to the nearest number with a significand of
  53 bits, ties to the even significand, with the exponent of the subnormal
  numbers for the numbers below \<open>2 ^ - 1022\<close>, so that a small quotient underflows
  gradually and then to 0.  Infinities and NaN are not part of the model: it is
  used for results below the largest double and for divisors other than 0.
\<close>

text \<open>Rounding of a rational number to the nearest integer, ties to even.\<close>

definition round_even :: "rat \<Rightarrow> int" where
  "round_even y =
     (let f = \<lfloor>y\<rfloor>; r = y - of_int f
      in if r < 1 / 2 then f else if 1 / 2 < r then f + 1 else if even f then f else f + 1)"

text \<open>The binary exponent of a positive number: \<open>2 ^ expo x \<le> x < 2 ^ (expo x + 1)\<close>.\<close>

definition expo :: "rat \<Rightarrow> int" where
  "expo x = (if 1 \<le> x then bitlen \<lfloor>x\<rfloor> - 1 else - bitlen (\<lceil>1 / x\<rceil> - 1))"

text \<open>
  Rounding of a positive number: the unit in the last place is \<open>2 ^ (e - 52)\<close>
  for the exponent \<open>e\<close> of the number, and \<open>2 ^ - 1074\<close> for the subnormal
  numbers.
\<close>

definition round_pos :: "rat \<Rightarrow> rat" where
  "round_pos x =
     (let u = power_int 2 (max (expo x) (- 1022) - 52)
      in of_int (round_even (x / u)) * u)"

definition round_double :: "rat \<Rightarrow> rat" where
  "round_double x = (if x = 0 then 0 else if 0 < x then round_pos x else - round_pos (- x))"

text \<open>
  The operations of the source on doubles; the literal \<^verbatim>\<open>1e100\<close> is the double
  nearest to \<open>10 ^ 100\<close>.
\<close>

definition double_arith :: "rat arith" where
  "double_arith =
     \<lparr>d_add = (\<lambda>x y. round_double (x + y)), d_div = (\<lambda>x y. round_double (x / y)),
      d_less = (<), d_gt_1e100 = (\<lambda>x. round_double (10 ^ 100) < x), d_one = 1\<rparr>"

section \<open>An example run\<close>

text \<open>
  Scores as real numbers, for the examples.
\<close>

definition real_arith :: "real arith" where
  "real_arith =
     \<lparr>d_add = (+), d_div = (/), d_less = (<), d_gt_1e100 = (\<lambda>x. x > 10 ^ 100), d_one = 1\<rparr>"

text \<open>
  Four variables: 1, 2 and 3 are the decisions of the levels 1, 2 and 3, and 4 is
  implied at level 3 by the learned clause \<open>4 \<or> \<not>1 \<or> \<not>2 \<or> \<not>3\<close> at address 1.
  The clause \<open>\<not>4 \<or> \<not>3\<close> at address 0 is the conflict.  The queue holds the
  variables 4, 3, 2, 1 from front to tail.
\<close>

definition ex_var ::
  "int \<Rightarrow> int \<Rightarrow> nat option \<Rightarrow> nat option \<Rightarrow> nat option \<Rightarrow> real var" where
  "ex_var lv tr rs p n =
     \<lparr>v_level = lv, v_trail = tr, v_reason = rs, v_seen = False, v_score = 0,
      v_bumped = 0, v_prev = p, v_next = n\<rparr>"

definition ex_vtab :: "nat \<Rightarrow> real var" where
  "ex_vtab i =
     (if i = 1 then ex_var 1 0 None (Some 2) None
      else if i = 2 then ex_var 2 1 None (Some 3) (Some 1)
      else if i = 3 then ex_var 3 2 None (Some 4) (Some 2)
      else if i = 4 then ex_var 3 3 (Some 1) None (Some 3)
      else ex_var 0 0 None None None)"

definition ex_clauses :: "nat \<Rightarrow> clause_rec" where
  "ex_clauses a =
     (if a = 1
      then \<lparr>literals = [4, - 1, - 2, - 3], glue = 3, redundant = True, extended = True,
            c_resolved = 5\<rparr>
      else \<lparr>literals = [- 4, - 3], glue = 0, redundant = False, extended = False,
            c_resolved = 0\<rparr>)"

definition ex_state :: "real internal" where
  "ex_state =
     \<lparr>level = 3, unsat = False, iterating = False, conflict = Some 0,
      proof_trace = Some [], max_var = 4, vtab = ex_vtab,
      vals = (\<lambda>i. if 1 \<le> i \<and> i \<le> 4 then 1 else 0),
      trail = [1, 2, 3, 4],
      control = (\<lambda>_. \<lparr>l_seen = 0, l_trail = 2147483647\<rparr>),
      clauses = ex_clauses, seen = [], levels = [], clause = [], resolved = [],
      scinc = 1,
      queue = \<lparr>q_first = Some 4, q_last = Some 1, q_assigned = None\<rparr>,
      stats = \<lparr>s_fixed = 0, s_rescored = 0, s_bumped = 0, s_resolved = 5, s_units = 0,
               s_binaries = 0\<rparr>,
      opts = \<lparr>bumpsort = 0, decay = 19 / 20, keepsize = 3, keepglue = 2, minimize = False\<rparr>,
      fast_glue_avg = 0, slow_glue_avg = 0, jump_avg = 0\<rparr>"

text \<open>
  Collaborators for the examples: no minimisation and no check, a clause database
  that stores the learned clause at address 2, a trail manager that drops the
  literals above the target level and appends the assigned literal, a reset of the
  level records, and averages that stay as they are.
\<close>

definition ex_ext :: "real ext" where
  "ex_ext =
     \<lparr>minimize_clause = (\<lambda>st. st),
      new_learned_clause = (\<lambda>g st.
        (2, st\<lparr>clauses := (clauses st)
                 (2 := \<lparr>literals = clause st, glue = g, redundant = True, extended = False,
                        c_resolved = 0\<rparr>)\<rparr>)),
      backtrack = (\<lambda>jump st.
        st\<lparr>level := jump,
           trail := filter (\<lambda>l. v_level (var st l) \<le> jump) (trail st),
           vals := (\<lambda>i. if v_level (vtab st i) \<le> jump then vals st i else 0)\<rparr>),
      assign = (\<lambda>lit r st.
        st\<lparr>trail := trail st @ [lit],
           vals := (vals st)(vidx lit := (if lit < 0 then - 1 else 1)),
           vtab := (vtab st)(vidx lit :=
                     (var st lit)\<lparr>v_level := level st, v_trail := int (length (trail st)),
                                   v_reason := r\<rparr>)\<rparr>),
      check_clause = (\<lambda>st. st),
      level_reset = (\<lambda>l. \<lparr>l_seen = 0, l_trail = 2147483647\<rparr>),
      update_avg = (\<lambda>name a y. a)\<rparr>"

text \<open>The same state with the conflict found at the root level.\<close>

definition ex_root :: "real internal" where
  "ex_root = ex_state\<lparr>level := 0\<rparr>"

text \<open>The example after the first UIP clause is derived, and after the glue is computed.\<close>

definition ex_uip :: "real internal" where
  "ex_uip = fst (projr (derive_first_uip_clause 0 ex_state))"

definition ex_learned :: "real internal" where
  "ex_learned = snd (analyze_glue ex_ext ex_uip)"

text \<open>
  A second example, in which a unit clause is learned: variable 1 is the decision
  of level 1 and implies variable 2 by the clause \<open>2 \<or> \<not>1\<close> at address 1; the
  clause \<open>\<not>2 \<or> \<not>1\<close> at address 0 is the conflict.
\<close>

definition ex_unit_vtab :: "nat \<Rightarrow> real var" where
  "ex_unit_vtab i =
     (if i = 1 then ex_var 1 0 None (Some 2) None
      else if i = 2 then ex_var 1 1 (Some 1) None (Some 1)
      else ex_var 0 0 None None None)"

definition ex_unit_clauses :: "nat \<Rightarrow> clause_rec" where
  "ex_unit_clauses a =
     \<lparr>literals = (if a = 1 then [2, - 1] else [- 2, - 1]), glue = 0, redundant = False,
      extended = False, c_resolved = 0\<rparr>"

definition ex_unit :: "real internal" where
  "ex_unit =
     ex_state\<lparr>level := 1, max_var := 2, vtab := ex_unit_vtab,
              vals := (\<lambda>i. if 1 \<le> i \<and> i \<le> 2 then 1 else 0),
              trail := [1, 2], clauses := ex_unit_clauses,
              queue := \<lparr>q_first = Some 2, q_last = Some 1, q_assigned = None\<rparr>\<rparr>"

definition ex_unit_uip :: "real internal" where
  "ex_unit_uip = fst (projr (derive_first_uip_clause 0 ex_unit))"

definition ex_unit_learned :: "real internal" where
  "ex_unit_learned = snd (analyze_glue ex_ext ex_unit_uip)"

text \<open>
  The first example with scores and an increment just below the threshold: the
  increment is \<open>6 * 10 ^ 99\<close>, the score of variable 3 is \<open>6 * 10 ^ 99\<close> and
  the score of variable 2 is \<open>3 * 10 ^ 99\<close>.
\<close>

definition ex_near :: "real internal" where
  "ex_near =
     ex_state\<lparr>vtab := (\<lambda>i. (ex_vtab i)\<lparr>v_score :=
                 (if i = 3 then 6 * 10 ^ 99 else if i = 2 then 3 * 10 ^ 99 else 0)\<rparr>),
              scinc := 6 * 10 ^ 99\<rparr>"

text \<open>
  The first example with the variables 2 and 3 unassigned and the frontier at
  variable 3, the unassigned variable nearest to the front.
\<close>

definition ex_queue :: "real internal" where
  "ex_queue =
     ex_state\<lparr>vals := (\<lambda>i. if i = 1 \<or> i = 4 then 1 else 0),
              queue := \<lparr>q_first = Some 4, q_last = Some 1, q_assigned = Some 3\<rparr>\<rparr>"

text \<open>The first example with both clauses collected for stamping.\<close>

definition ex_stamps :: "real internal" where
  "ex_stamps = ex_state\<lparr>resolved := [1, 0]\<rparr>"

text \<open>The first example with the scores 1, 2, 3, 4 and the increment 2.\<close>

definition ex_scores :: "real internal" where
  "ex_scores = ex_state\<lparr>vtab := (\<lambda>i. (ex_vtab i)\<lparr>v_score := real i\<rparr>), scinc := 2\<rparr>"


text \<open>
  A state with scores that are doubles, for the rounding of the rescaling.  The
  decay is the double nearest to 0.95, and the increment is the double that
  \<open>scinc\<close> holds after 4489 divisions of the initial value 1 by this decay, the
  last one below the threshold; it is about \<open>9.97 * 10 ^ 99\<close>.  The two
  variables have the scores \<open>15\<close> and \<open>15 + 2 ^ - 49\<close>, which are neighbours
  among the doubles, and there is nothing to bump.  The queue holds the variables
  2, 1.
\<close>

definition ex_round :: "rat internal" where
  "ex_round =
     \<lparr>level = 0, unsat = False, iterating = False, conflict = None,
      proof_trace = None, max_var = 2,
      vtab = (\<lambda>i. \<lparr>v_level = 0, v_trail = 0, v_reason = None, v_seen = False,
                    v_score = (if i = 1 then 15 else if i = 2 then 15 + 1 / 2 ^ 49 else 0),
                    v_bumped = 0,
                    v_prev = (if i = 1 then Some 2 else None),
                    v_next = (if i = 2 then Some 1 else None)\<rparr>),
      vals = (\<lambda>_. 0),
      trail = [],
      control = (\<lambda>_. \<lparr>l_seen = 0, l_trail = 2147483647\<rparr>),
      clauses = ex_clauses, seen = [], levels = [], clause = [], resolved = [],
      scinc = 5132595897081379 * 2 ^ 280,
      queue = \<lparr>q_first = Some 2, q_last = Some 1, q_assigned = Some 2\<rparr>,
      stats = \<lparr>s_fixed = 0, s_rescored = 0, s_bumped = 0, s_resolved = 0, s_units = 0,
               s_binaries = 0\<rparr>,
      opts = \<lparr>bumpsort = 0, decay = 4278419646001971 / 2 ^ 52, keepsize = 3, keepglue = 2, minimize = False\<rparr>,
      fast_glue_avg = 0, slow_glue_avg = 0, jump_avg = 0\<rparr>"

text \<open>
  The same state when the increment has been divided by the decay; it is now about
  \<open>1.05 * 10 ^ 100\<close>.
\<close>

definition ex_round_decayed :: "rat internal" where
  "ex_round_decayed = ex_round\<lparr>scinc := 5402732523243557 * 2 ^ 280\<rparr>"
section \<open>Facts about the example\<close>

lemmas ex_defs =
  ex_state_def ex_root_def ex_vtab_def ex_var_def ex_clauses_def real_arith_def ex_ext_def

lemmas ex_defs2 = ex_defs ex_near_def ex_queue_def

lemma ex_derive: "derive_first_uip_clause 0 ex_state = Inr (ex_uip, 3)"
proof -
  have "\<not> isl (derive_first_uip_clause 0 ex_state)"
    and "snd (projr (derive_first_uip_clause 0 ex_state)) = 3"
    by code_simp+
  then show ?thesis
    unfolding ex_uip_def by (cases "derive_first_uip_clause 0 ex_state") auto
qed

lemma ex_unit_derive: "derive_first_uip_clause 0 ex_unit = Inr (ex_unit_uip, 1)"
proof -
  have "\<not> isl (derive_first_uip_clause 0 ex_unit)"
    and "snd (projr (derive_first_uip_clause 0 ex_unit)) = 1"
    by code_simp+
  then show ?thesis
    unfolding ex_unit_uip_def by (cases "derive_first_uip_clause 0 ex_unit") auto
qed

lemma ex_glue: "analyze_glue ex_ext ex_uip = (3, ex_learned)"
proof -
  have "fst (analyze_glue ex_ext ex_uip) = 3"
    by code_simp
  then show ?thesis
    unfolding ex_learned_def by (cases "analyze_glue ex_ext ex_uip") auto
qed

lemma ex_unit_glue: "analyze_glue ex_ext ex_unit_uip = (1, ex_unit_learned)"
proof -
  have "fst (analyze_glue ex_ext ex_unit_uip) = 1"
    by code_simp
  then show ?thesis
    unfolding ex_unit_learned_def by (cases "analyze_glue ex_ext ex_unit_uip") auto
qed

lemma ex_queue_list: "queue_list ex_state [4, 3, 2, 1]"
  by (simp add: queue_list_def ex_defs)

lemma ex_trail_ok: "trail_ok ex_state"
  by code_simp

lemma ex_ready: "analysis_ready ex_state 0"
proof -
  have "\<forall>l \<in> set (literals (clauses ex_state 0)). - l \<in> set (trail ex_state)"
    and "\<exists>l \<in> set (literals (clauses ex_state 0)). lev ex_state l = level ex_state"
    and "clause ex_state = []"
    and "redundant (clauses ex_state 0) \<and> keepsize (opts ex_state) < size_of (clauses ex_state 0) \<and>
       keepglue (opts ex_state) < glue (clauses ex_state 0) \<longrightarrow> extended (clauses ex_state 0)"
    by code_simp+
  moreover have "\<forall>x. \<not> v_seen (vtab ex_state x)"
    by (simp add: ex_defs)
  ultimately show ?thesis
    using ex_trail_ok unfolding analysis_ready_def by blast
qed

section \<open>A conflict at the root level\<close>

text \<open>
  Claim C3.  A call of \<open>analyze\<close> at decision level 0 with a conflict set (and, as
  \<open>learn_empty_clause\<close> asserts, the flag \<open>unsat\<close> not yet set) returns with the
  flag \<open>unsat\<close> set and the empty-clause event traced when there is a tracer.  No
  clause is learned: the result does not depend on the collaborators (the clause
  database and the trail manager are not called), and the clause buffer, the
  clause heap, the trail, the values and the level are as before.
\<close>

theorem analyze_root_conflict:
  assumes "level st = 0" and "conflict st = Some c" and "\<not> unsat st"
  shows "\<exists>st'. (\<forall>ex' ar'. analyze ex' ar' st = Inr st') \<and> unsat st' \<and>
           proof_trace st' = map_option (\<lambda>evs. evs @ [TraceEmptyClause]) (proof_trace st) \<and>
           clause st' = clause st \<and> clauses st' = clauses st \<and>
           trail st' = trail st \<and> vals st' = vals st \<and> level st' = level st"
  using assms
  by (simp add: analyze_def learn_empty_clause_def trace_def split: option.splits)

theorem analyze_root_conflict_witness:
  "level ex_root = 0 \<and> conflict ex_root = Some 0 \<and> \<not> unsat ex_root \<and> clause ex_root = [] \<and>
   (\<exists>st'. (\<forall>ex' ar'. analyze ex' ar' ex_root = Inr st') \<and> unsat st' \<and>
           proof_trace st' = Some [TraceEmptyClause] \<and> clause st' = [] \<and>
           clauses st' = clauses ex_root \<and> trail st' = [1, 2, 3, 4])"
  using analyze_root_conflict [of ex_root 0]
  by (auto simp: ex_root_def ex_state_def)

text \<open>
  Claim C10.  On the root path the state after the call is the state before it
  with the flag \<open>unsat\<close> set, the empty-clause event added to the trace of the
  tracer (when there is one) and the conflict reset to null; every other component
  of the state is unchanged.
\<close>

theorem analyze_root_frame:
  assumes "level st = 0" and "conflict st = Some c" and "\<not> unsat st"
  shows "analyze ex ar st =
           Inr (st\<lparr>unsat := True, conflict := None,
                   proof_trace := map_option (\<lambda>evs. evs @ [TraceEmptyClause]) (proof_trace st)\<rparr>)"
  using assms
  by (simp add: analyze_def learn_empty_clause_def trace_def split: option.splits)

theorem analyze_root_frame_witness:
  "level ex_root = 0 \<and> conflict ex_root = Some 0 \<and> \<not> unsat ex_root \<and>
   analyze ex_ext real_arith ex_root =
     Inr (ex_root\<lparr>unsat := True, conflict := None, proof_trace := Some [TraceEmptyClause]\<rparr>)"
  using analyze_root_frame [of ex_root 0 ex_ext real_arith]
  by (simp add: ex_root_def ex_state_def)

section \<open>The analysis of one literal\<close>

text \<open>
  Claim C5 as stated fails: for a literal below the current level the buffer
  receives the literal itself, not its negation.  In the example the literal
  \<open>- 1\<close> (variable 1 is true, assigned at level 1, and the level is 3) is unseen and
  not at the root, and after the call the buffer is \<open>[- 1]\<close>.
\<close>

theorem analyze_literal_negation_counterexample:
  "\<not> v_seen (var ex_state (- 1)) \<and> v_level (var ex_state (- 1)) \<noteq> 0 \<and>
   v_level (var ex_state (- 1)) < level ex_state \<and>
   (case analyze_literal (- 1) ex_state of
      Inl e \<Rightarrow> False
    | Inr (b, s) \<Rightarrow> clause s = [- 1] \<and> clause s \<noteq> clause ex_state @ [- (- 1)])"
  by (simp add: analyze_literal_def var_def vidx_def val_def ex_defs)

text \<open>
  Claim C5, amended.  A literal whose variable is already seen or assigned at
  level 0 leaves the whole state unchanged and the call returns false.  For any
  other literal that is falsified (what the call asserts), the call returns true
  exactly when the level of the literal is the current level; the literal itself
  is appended to the clause buffer when its level is strictly below the current
  level, and the buffer is unchanged otherwise; the literal is appended to the
  list of seen literals and its variable is marked seen.
\<close>

theorem analyze_literal_effect:
  "(v_seen (var st lit) \<or> v_level (var st lit) = 0 \<longrightarrow>
      analyze_literal lit st = Inr (False, st)) \<and>
   (\<not> v_seen (var st lit) \<and> v_level (var st lit) \<noteq> 0 \<and> val st lit < 0 \<longrightarrow>
      (\<exists>st'. analyze_literal lit st = Inr (v_level (var st lit) = level st, st') \<and>
             clause st' =
               (if v_level (var st lit) < level st then clause st @ [lit] else clause st) \<and>
             seen st' = seen st @ [lit] \<and> v_seen (var st' lit)))"
  by (simp add: analyze_literal_def var_def Let_def)

theorem analyze_literal_effect_witness:
  "(v_level (var ex_state 5) = 0 \<and> analyze_literal 5 ex_state = Inr (False, ex_state)) \<and>
   (\<not> v_seen (var ex_state (- 1)) \<and> v_level (var ex_state (- 1)) \<noteq> 0 \<and>
    val ex_state (- 1) < 0 \<and>
      (\<exists>st'. analyze_literal (- 1) ex_state = Inr (False, st') \<and> clause st' = [- 1] \<and>
             seen st' = [- 1] \<and> v_seen (var st' (- 1))))"
  using analyze_literal_effect [of ex_state 5] analyze_literal_effect [of ex_state "- 1"]
  by (simp add: var_def vidx_def val_def ex_defs)

section \<open>Sorting\<close>

text \<open>
  The model of \<^verbatim>\<open>std::sort\<close> returns a permutation of its input, sorted for a
  comparator that compares integer keys.
\<close>

lemma set_insort_by: "set (insort_by cmp x xs) = insert x (set xs)"
  by (induction xs) auto

lemma set_sort_by: "set (sort_by cmp xs) = set xs"
  by (induction xs) (auto simp: sort_by_def set_insort_by)

lemma length_insort_by: "length (insort_by cmp x xs) = Suc (length xs)"
  by (induction xs) auto

lemma length_sort_by: "length (sort_by cmp xs) = length xs"
  by (induction xs) (auto simp: sort_by_def length_insort_by)

lemma mset_insort_by: "mset (insort_by cmp x xs) = add_mset x (mset xs)"
  by (induction xs) auto

lemma mset_sort_by: "mset (sort_by cmp xs) = mset xs"
  by (induction xs) (auto simp: sort_by_def mset_insort_by)

lemma sorted_insort_by_desc:
  fixes f :: "'a \<Rightarrow> int"
  assumes "sorted_wrt (\<lambda>a b. f b \<le> f a) xs"
  shows "sorted_wrt (\<lambda>a b. f b \<le> f a) (insort_by (\<lambda>a b. f a > f b) x xs)"
  using assms by (induction xs) (auto simp: set_insort_by)

lemma sorted_sort_by_desc:
  fixes f :: "'a \<Rightarrow> int"
  shows "sorted_wrt (\<lambda>a b. f b \<le> f a) (sort_by (\<lambda>a b. f a > f b) xs)"
  by (induction xs) (auto simp: sort_by_def sorted_insort_by_desc)

lemma sorted_insort_by_asc:
  fixes f :: "'a \<Rightarrow> int"
  assumes "sorted_wrt (\<lambda>a b. f a \<le> f b) xs"
  shows "sorted_wrt (\<lambda>a b. f a \<le> f b) (insort_by (\<lambda>a b. f a < f b) x xs)"
  using assms by (induction xs) (auto simp: set_insort_by)

lemma sorted_sort_by_asc:
  fixes f :: "'a \<Rightarrow> int"
  shows "sorted_wrt (\<lambda>a b. f a \<le> f b) (sort_by (\<lambda>a b. f a < f b) xs)"
  by (induction xs) (auto simp: sort_by_def sorted_insort_by_asc)

section \<open>Recency stamps\<close>

text \<open>
  Claim C9 on the example.  The clause at address 1 is redundant, its size 4 is
  above \<open>keepsize = 3\<close> and its glue 3 is above \<open>keepglue = 2\<close>, and the analysis
  resolves with it: it is the reason of variable 4, and the first UIP clause
  \<open>\<not>1 \<or> \<not>2 \<or> \<not>3\<close> has the literals \<open>\<not>1\<close> and \<open>\<not>2\<close> from it.  Only the conflict is
  passed to \<open>resolve_clause\<close>, before the loop; the reasons taken in the loop are
  not.  So the list \<open>resolved\<close> is empty after the derivation, and after the whole
  analysis the clause has its old stamp and the counter has not moved.
\<close>

theorem reason_clause_not_collected:
  "redundant (clauses ex_state 1) \<and>
   size_of (clauses ex_state 1) > keepsize (opts ex_state) \<and>
   glue (clauses ex_state 1) > keepglue (opts ex_state) \<and>
   v_reason (var ex_state 4) = Some 1 \<and>
   (case derive_first_uip_clause 0 ex_state of
      Inl e \<Rightarrow> False
    | Inr (s, uip) \<Rightarrow> uip = 3 \<and> clause s = [- 1, - 2, - 3] \<and> resolved s = []) \<and>
   (case analyze ex_ext real_arith ex_state of
      Inl e \<Rightarrow> False
    | Inr s \<Rightarrow> c_resolved (clauses s 1) = c_resolved (clauses ex_state 1) \<and>
               s_resolved (stats s) = s_resolved (stats ex_state))"
  by code_simp

section \<open>The back jump level\<close>

lemma sorted_clause:
  "sorted_wrt (\<lambda>a b. v_trail (var st b) \<le> v_trail (var st a))
     (sort_by (trail_greater_than st) (clause st))"
proof -
  have "trail_greater_than st = (\<lambda>a b. v_trail (var st a) > v_trail (var st b))"
    by (simp add: trail_greater_than_def fun_eq_iff)
  then show ?thesis
    using sorted_sort_by_desc [of "\<lambda>a. v_trail (var st a)" "clause st"] by simp
qed

text \<open>
  Claim C4.  Let the first UIP clause be derived for a conflict above the root
  level and let \<open>st2\<close> be the state when the glue is computed and the clause is
  minimised, with the learned clause in its buffer.

  When the learned clause has one literal, the counter of units goes up by one,
  \<open>backtrack\<close> is called with the level 0 and \<open>assign\<close> is called with the
  negated first UIP and the null reason \<open>None\<close> on the state that \<open>backtrack\<close>
  returns; the clause database is not called.

  When it has more than one literal, the buffer is sorted by descending trail
  position (\<open>cs\<close> is a permutation of the clause, sorted), the clause database
  is called on that buffer with the glue and returns the driving clause \<open>cl\<close>,
  \<open>backtrack\<close> is called with the level of the literal at index 1 of the buffer
  and \<open>assign\<close> with the negated first UIP and the reason \<open>cl\<close>.  If the clause
  database leaves the buffer and the levels as they are and the trail positions
  of the literals of the clause grow with their levels, this level is the second
  highest of the clause: no literal from index 1 on has a higher level, and the
  literal at index 0 has no lower one.

  In both cases the result of \<open>analyze\<close> is the result of the bumping and
  cleaning up on the state that \<open>assign\<close> returns.
\<close>

theorem analyze_jump_level:
  assumes "level st \<noteq> 0" and "conflict st = Some c"
    and "derive_first_uip_clause c st = Inr (st1, uip)"
    and "analyze_glue ex st1 = (g, st2)"
  shows "(length (clause st2) = 1 \<longrightarrow>
            s_units (stats (analyze_count st2)) = s_units (stats st2) + 1 \<and>
            analyze ex ar st =
              analyze_cleanup ex ar
                (assign ex (- uip) None
                   (backtrack ex 0
                      ((analyze_count st2)\<lparr>jump_avg :=
                         update_avg ex ''jump_avg'' (jump_avg (analyze_count st2)) 0\<rparr>)))) \<and>
         (length (clause st2) > 1 \<longrightarrow>
            (\<exists>cl st3 cs jump.
               cs = sort_by (trail_greater_than st2) (clause st2) \<and>
               mset cs = mset (clause st2) \<and>
               sorted_wrt (\<lambda>a b. v_trail (var st2 b) \<le> v_trail (var st2 a)) cs \<and>
               new_learned_clause ex g ((analyze_count st2)\<lparr>clause := cs\<rparr>) = (cl, st3) \<and>
               jump = v_level (var st3 (clause st3 ! 1)) \<and>
               analyze ex ar st =
                 analyze_cleanup ex ar
                   (assign ex (- uip) (Some cl)
                      (backtrack ex jump
                         (st3\<lparr>jump_avg := update_avg ex ''jump_avg'' (jump_avg st3) jump\<rparr>))) \<and>
               (clause st3 = cs \<and> (\<forall>l. v_level (var st3 l) = v_level (var st2 l)) \<and>
                (\<forall>a \<in> set (clause st2). \<forall>b \<in> set (clause st2).
                   v_trail (var st2 a) \<le> v_trail (var st2 b) \<longrightarrow>
                   v_level (var st2 a) \<le> v_level (var st2 b)) \<longrightarrow>
                (\<forall>k. 1 \<le> k \<and> k < length cs \<longrightarrow> v_level (var st2 (cs ! k)) \<le> jump) \<and>
                jump \<le> v_level (var st2 (cs ! 0)))))"
proof (intro conjI impI)
  assume one: "length (clause st2) = 1"
  show "s_units (stats (analyze_count st2)) = s_units (stats st2) + 1"
    using one by (simp add: analyze_count_def Let_def)
  have "clause (analyze_count st2) = clause st2"
    by (simp add: analyze_count_def Let_def)
  then show "analyze ex ar st =
      analyze_cleanup ex ar
        (assign ex (- uip) None
           (backtrack ex 0
              ((analyze_count st2)\<lparr>jump_avg :=
                 update_avg ex ''jump_avg'' (jump_avg (analyze_count st2)) 0\<rparr>)))"
    using assms one by (simp add: analyze_def analyze_jump_def analyze_finish_def)
next
  assume many: "length (clause st2) > 1"
  define st2c where "st2c = analyze_count st2"
  define cs where "cs = sort_by (trail_greater_than st2) (clause st2)"
  obtain cl st3 where db: "new_learned_clause ex g (st2c\<lparr>clause := cs\<rparr>) = (cl, st3)"
    by (cases "new_learned_clause ex g (st2c\<lparr>clause := cs\<rparr>)")
  define jump where "jump = v_level (var st3 (clause st3 ! 1))"
  have cl2: "clause st2c = clause st2" and vt2: "vtab st2c = vtab st2"
    by (simp_all add: st2c_def analyze_count_def Let_def)
  have tg: "trail_greater_than st2c = trail_greater_than st2"
    by (simp add: trail_greater_than_def var_def vt2 fun_eq_iff)
  have jmp: "analyze_jump ex g st2c = (Some cl, jump, st3)"
    using many db by (simp add: analyze_jump_def cl2 tg cs_def jump_def)
  have run: "analyze ex ar st =
      analyze_cleanup ex ar
        (assign ex (- uip) (Some cl)
           (backtrack ex jump
              (st3\<lparr>jump_avg := update_avg ex ''jump_avg'' (jump_avg st3) jump\<rparr>)))"
    using assms jmp by (simp add: analyze_def st2c_def analyze_finish_def)
  have srt: "sorted_wrt (\<lambda>a b. v_trail (var st2 b) \<le> v_trail (var st2 a)) cs"
    unfolding cs_def by (rule sorted_clause)
  have ms: "mset cs = mset (clause st2)"
    by (simp add: cs_def mset_sort_by)
  have second: "(\<forall>k. 1 \<le> k \<and> k < length cs \<longrightarrow> v_level (var st2 (cs ! k)) \<le> jump) \<and>
                jump \<le> v_level (var st2 (cs ! 0))"
    if frame: "clause st3 = cs \<and> (\<forall>l. v_level (var st3 l) = v_level (var st2 l)) \<and>
                (\<forall>a \<in> set (clause st2). \<forall>b \<in> set (clause st2).
                   v_trail (var st2 a) \<le> v_trail (var st2 b) \<longrightarrow>
                   v_level (var st2 a) \<le> v_level (var st2 b))"
  proof -
    have len: "length cs = length (clause st2)"
      by (simp add: cs_def length_sort_by)
    have mem: "set cs = set (clause st2)"
      by (simp add: cs_def set_sort_by)
    have mono: "v_level (var st2 (cs ! j)) \<le> v_level (var st2 (cs ! i))"
      if "i \<le> j" "j < length cs" for i j
    proof (cases "i = j")
      case True
      then show ?thesis by simp
    next
      case False
      with that have "i < j" by simp
      with srt that have "v_trail (var st2 (cs ! j)) \<le> v_trail (var st2 (cs ! i))"
        by (simp add: sorted_wrt_iff_nth_less)
      moreover have "cs ! j \<in> set (clause st2)" "cs ! i \<in> set (clause st2)"
        using that mem nth_mem [of j cs] nth_mem [of i cs] by auto
      ultimately show ?thesis using frame by blast
    qed
    have j1: "jump = v_level (var st2 (cs ! 1))"
      using frame by (simp add: jump_def)
    show ?thesis
      using mono [of 1] mono [of 0 1] many len j1 by auto
  qed
  show "\<exists>cl st3 cs jump.
               cs = sort_by (trail_greater_than st2) (clause st2) \<and>
               mset cs = mset (clause st2) \<and>
               sorted_wrt (\<lambda>a b. v_trail (var st2 b) \<le> v_trail (var st2 a)) cs \<and>
               new_learned_clause ex g ((analyze_count st2)\<lparr>clause := cs\<rparr>) = (cl, st3) \<and>
               jump = v_level (var st3 (clause st3 ! 1)) \<and>
               analyze ex ar st =
                 analyze_cleanup ex ar
                   (assign ex (- uip) (Some cl)
                      (backtrack ex jump
                         (st3\<lparr>jump_avg := update_avg ex ''jump_avg'' (jump_avg st3) jump\<rparr>))) \<and>
               (clause st3 = cs \<and> (\<forall>l. v_level (var st3 l) = v_level (var st2 l)) \<and>
                (\<forall>a \<in> set (clause st2). \<forall>b \<in> set (clause st2).
                   v_trail (var st2 a) \<le> v_trail (var st2 b) \<longrightarrow>
                   v_level (var st2 a) \<le> v_level (var st2 b)) \<longrightarrow>
                (\<forall>k. 1 \<le> k \<and> k < length cs \<longrightarrow> v_level (var st2 (cs ! k)) \<le> jump) \<and>
                jump \<le> v_level (var st2 (cs ! 0)))"
    using db run srt ms second unfolding st2c_def cs_def jump_def by blast
qed

theorem analyze_jump_level_witness:
  "(level ex_unit \<noteq> 0 \<and> conflict ex_unit = Some 0 \<and>
    derive_first_uip_clause 0 ex_unit = Inr (ex_unit_uip, 1) \<and>
    analyze_glue ex_ext ex_unit_uip = (1, ex_unit_learned) \<and>
    clause ex_unit_learned = [- 1] \<and>
    s_units (stats (analyze_count ex_unit_learned)) = s_units (stats ex_unit_learned) + 1 \<and>
    analyze ex_ext real_arith ex_unit =
      analyze_cleanup ex_ext real_arith
        (assign ex_ext (- 1) None
           (backtrack ex_ext 0
              ((analyze_count ex_unit_learned)\<lparr>jump_avg :=
                 update_avg ex_ext ''jump_avg'' (jump_avg (analyze_count ex_unit_learned)) 0\<rparr>))) \<and>
    (\<exists>st'. analyze ex_ext real_arith ex_unit = Inr st' \<and> level st' = 0 \<and> trail st' = [- 1] \<and>
       v_reason (vtab st' 1) = None \<and> v_level (vtab st' 1) = 0 \<and> clauses st' 2 = clauses ex_unit 2 \<and>
       s_units (stats st') = 1)) \<and>
   (level ex_state \<noteq> 0 \<and> conflict ex_state = Some 0 \<and>
    derive_first_uip_clause 0 ex_state = Inr (ex_uip, 3) \<and>
    analyze_glue ex_ext ex_uip = (3, ex_learned) \<and>
    clause ex_learned = [- 1, - 2, - 3] \<and>
    (\<exists>cl st3. new_learned_clause ex_ext 3 ((analyze_count ex_learned)\<lparr>clause := [- 3, - 2, - 1]\<rparr>)
                 = (cl, st3) \<and>
              v_level (var st3 (clause st3 ! 1)) = 2 \<and>
              analyze ex_ext real_arith ex_state =
                analyze_cleanup ex_ext real_arith
                  (assign ex_ext (- 3) (Some cl)
                     (backtrack ex_ext 2
                        (st3\<lparr>jump_avg := update_avg ex_ext ''jump_avg'' (jump_avg st3) 2\<rparr>))) \<and>
              v_level (var ex_learned (- 1)) \<le> 2 \<and> 2 \<le> v_level (var ex_learned (- 3))) \<and>
    (\<exists>st'. analyze ex_ext real_arith ex_state = Inr st' \<and> level st' = 2 \<and>
       trail st' = [1, 2, - 3] \<and> v_reason (vtab st' 3) = Some 2 \<and> v_level (vtab st' 3) = 2 \<and>
       literals (clauses st' 2) = [- 3, - 2, - 1] \<and> s_units (stats st') = 0))"
proof -
  have u: "level ex_unit \<noteq> 0" "conflict ex_unit = Some 0"
    by (simp_all add: ex_unit_def ex_state_def)
  have ucl: "clause ex_unit_learned = [- 1]"
    by code_simp
  have s: "level ex_state \<noteq> 0" "conflict ex_state = Some 0"
    by (simp_all add: ex_state_def)
  have scl: "clause ex_learned = [- 1, - 2, - 3]"
    by code_simp
  have srt: "sort_by (trail_greater_than ex_learned) (clause ex_learned) = [- 3, - 2, - 1]"
    by code_simp
  have tr: "v_trail (var ex_learned (- 1)) = 0" "v_trail (var ex_learned (- 2)) = 1"
    "v_trail (var ex_learned (- 3)) = 2"
    by code_simp+
  have lv: "v_level (var ex_learned (- 1)) = 1" "v_level (var ex_learned (- 2)) = 2"
    "v_level (var ex_learned (- 3)) = 3"
    by code_simp+
  from analyze_jump_level [OF u ex_unit_derive ex_unit_glue, of real_arith] ucl
  have first: "s_units (stats (analyze_count ex_unit_learned)) =
      s_units (stats ex_unit_learned) + 1 \<and>
    analyze ex_ext real_arith ex_unit =
      analyze_cleanup ex_ext real_arith
        (assign ex_ext (- 1) None
           (backtrack ex_ext 0
              ((analyze_count ex_unit_learned)\<lparr>jump_avg :=
                 update_avg ex_ext ''jump_avg'' (jump_avg (analyze_count ex_unit_learned)) 0\<rparr>)))"
    by simp
  have "\<not> isl (analyze ex_ext real_arith ex_unit)"
    by code_simp
  then obtain su where su: "analyze ex_ext real_arith ex_unit = Inr su"
    by (cases "analyze ex_ext real_arith ex_unit") auto
  have "level (projr (analyze ex_ext real_arith ex_unit)) = 0"
    "trail (projr (analyze ex_ext real_arith ex_unit)) = [- 1]"
    "v_reason (vtab (projr (analyze ex_ext real_arith ex_unit)) 1) = None"
    "v_level (vtab (projr (analyze ex_ext real_arith ex_unit)) 1) = 0"
    "clauses (projr (analyze ex_ext real_arith ex_unit)) 2 = clauses ex_unit 2"
    "s_units (stats (projr (analyze ex_ext real_arith ex_unit))) = 1"
    by code_simp+
  with su have first_run: "\<exists>st'. analyze ex_ext real_arith ex_unit = Inr st' \<and> level st' = 0 \<and>
       trail st' = [- 1] \<and> v_reason (vtab st' 1) = None \<and> v_level (vtab st' 1) = 0 \<and>
       clauses st' 2 = clauses ex_unit 2 \<and> s_units (stats st') = 1"
    by simp
  have "\<not> isl (analyze ex_ext real_arith ex_state)"
    by code_simp
  then obtain ss where ss: "analyze ex_ext real_arith ex_state = Inr ss"
    by (cases "analyze ex_ext real_arith ex_state") auto
  have "level (projr (analyze ex_ext real_arith ex_state)) = 2"
    "trail (projr (analyze ex_ext real_arith ex_state)) = [1, 2, - 3]"
    "v_reason (vtab (projr (analyze ex_ext real_arith ex_state)) 3) = Some 2"
    "v_level (vtab (projr (analyze ex_ext real_arith ex_state)) 3) = 2"
    "literals (clauses (projr (analyze ex_ext real_arith ex_state)) 2) = [- 3, - 2, - 1]"
    "s_units (stats (projr (analyze ex_ext real_arith ex_state))) = 0"
    by code_simp+
  with ss have second_run: "\<exists>st'. analyze ex_ext real_arith ex_state = Inr st' \<and> level st' = 2 \<and>
       trail st' = [1, 2, - 3] \<and> v_reason (vtab st' 3) = Some 2 \<and> v_level (vtab st' 3) = 2 \<and>
       literals (clauses st' 2) = [- 3, - 2, - 1] \<and> s_units (stats st') = 0"
    by simp
  have "1 < length (clause ex_learned)"
    by (simp add: scl)
  with analyze_jump_level [OF s ex_derive ex_glue, of real_arith]
  obtain c st3 where
    db: "new_learned_clause ex_ext 3 ((analyze_count ex_learned)\<lparr>clause :=
        sort_by (trail_greater_than ex_learned) (clause ex_learned)\<rparr>) = (c, st3)"
    and run: "analyze ex_ext real_arith ex_state =
        analyze_cleanup ex_ext real_arith
          (assign ex_ext (- 3) (Some c)
             (backtrack ex_ext (v_level (var st3 (clause st3 ! 1)))
                (st3\<lparr>jump_avg := update_avg ex_ext ''jump_avg'' (jump_avg st3)
                   (v_level (var st3 (clause st3 ! 1)))\<rparr>)))"
    and sec: "clause st3 = sort_by (trail_greater_than ex_learned) (clause ex_learned) \<and>
        (\<forall>l. v_level (var st3 l) = v_level (var ex_learned l)) \<and>
        (\<forall>a \<in> set (clause ex_learned). \<forall>b \<in> set (clause ex_learned).
           v_trail (var ex_learned a) \<le> v_trail (var ex_learned b) \<longrightarrow>
           v_level (var ex_learned a) \<le> v_level (var ex_learned b)) \<longrightarrow>
        (\<forall>k. 1 \<le> k \<and>
              k < length (sort_by (trail_greater_than ex_learned) (clause ex_learned)) \<longrightarrow>
           v_level (var ex_learned
               (sort_by (trail_greater_than ex_learned) (clause ex_learned) ! k))
             \<le> v_level (var st3 (clause st3 ! 1))) \<and>
        v_level (var st3 (clause st3 ! 1))
          \<le> v_level (var ex_learned
               (sort_by (trail_greater_than ex_learned) (clause ex_learned) ! 0))"
    by blast
  have st3: "st3 = snd (new_learned_clause ex_ext 3
      ((analyze_count ex_learned)\<lparr>clause := [- 3, - 2, - 1]\<rparr>))"
    using db by (simp add: srt)
  have f1: "clause st3 = [- 3, - 2, - 1]"
    by (simp add: st3 ex_ext_def)
  have f2: "v_level (var st3 l) = v_level (var ex_learned l)" for l
    by (simp add: st3 ex_ext_def var_def analyze_count_def Let_def)
  have f3: "\<forall>a \<in> set (clause ex_learned). \<forall>b \<in> set (clause ex_learned).
           v_trail (var ex_learned a) \<le> v_trail (var ex_learned b) \<longrightarrow>
           v_level (var ex_learned a) \<le> v_level (var ex_learned b)"
    by (simp add: scl tr lv)
  have jump: "v_level (var st3 (clause st3 ! 1)) = 2"
    by (simp add: f1 f2 lv)
  have hyp: "clause st3 = sort_by (trail_greater_than ex_learned) (clause ex_learned) \<and>
        (\<forall>l. v_level (var st3 l) = v_level (var ex_learned l)) \<and>
        (\<forall>a \<in> set (clause ex_learned). \<forall>b \<in> set (clause ex_learned).
           v_trail (var ex_learned a) \<le> v_trail (var ex_learned b) \<longrightarrow>
           v_level (var ex_learned a) \<le> v_level (var ex_learned b))"
    using f1 f2 f3 by (simp add: srt)
  from mp [OF sec hyp] have
    low: "\<And>k. 1 \<le> k \<and>
              k < length (sort_by (trail_greater_than ex_learned) (clause ex_learned)) \<Longrightarrow>
           v_level (var ex_learned
               (sort_by (trail_greater_than ex_learned) (clause ex_learned) ! k))
             \<le> v_level (var st3 (clause st3 ! 1))"
    and high: "v_level (var st3 (clause st3 ! 1))
          \<le> v_level (var ex_learned
               (sort_by (trail_greater_than ex_learned) (clause ex_learned) ! 0))"
    by blast+
  from low [of 2] high
  have "v_level (var ex_learned (- 1)) \<le> v_level (var st3 (clause st3 ! 1))"
    and "v_level (var st3 (clause st3 ! 1)) \<le> v_level (var ex_learned (- 3))"
    by (simp_all add: srt)
  with jump have bounds:
    "v_level (var ex_learned (- 1)) \<le> 2" "2 \<le> v_level (var ex_learned (- 3))"
    by simp_all
  have second: "\<exists>cl st3. new_learned_clause ex_ext 3
                 ((analyze_count ex_learned)\<lparr>clause := [- 3, - 2, - 1]\<rparr>) = (cl, st3) \<and>
              v_level (var st3 (clause st3 ! 1)) = 2 \<and>
              analyze ex_ext real_arith ex_state =
                analyze_cleanup ex_ext real_arith
                  (assign ex_ext (- 3) (Some cl)
                     (backtrack ex_ext 2
                        (st3\<lparr>jump_avg := update_avg ex_ext ''jump_avg'' (jump_avg st3) 2\<rparr>))) \<and>
              v_level (var ex_learned (- 1)) \<le> 2 \<and> 2 \<le> v_level (var ex_learned (- 3))"
    using db run jump bounds by (auto simp: srt)
  show ?thesis
    using u s ex_unit_derive ex_unit_glue ex_derive ex_glue ucl scl first first_run second
      second_run by blast
qed
section \<open>The decision queue\<close>

lemma seg_cong:
  "(\<And>x. x \<in> set q \<Longrightarrow> v_prev (vt' x) = v_prev (vt x) \<and> v_next (vt' x) = v_next (vt x))
   \<Longrightarrow> seg vt' p q e = seg vt p q e"
  by (induction q arbitrary: p) auto

lemma seg_append:
  "seg vt p (xs @ ys) e =
     (seg vt p xs (case ys of [] \<Rightarrow> e | y # _ \<Rightarrow> Some y) \<and>
      seg vt (if xs = [] then p else Some (last xs)) ys e)"
  by (induction xs arbitrary: p) (auto split: list.splits)

lemma seg_set_last_next:
  "seg vt p xs e \<Longrightarrow> xs \<noteq> [] \<Longrightarrow> distinct xs \<Longrightarrow>
   seg (vt(last xs := (vt (last xs))\<lparr>v_next := e'\<rparr>)) p xs e'"
proof (induction xs arbitrary: p)
  case Nil
  then show ?case by simp
next
  case (Cons x xs)
  show ?case
  proof (cases xs)
    case Nil
    with Cons.prems show ?thesis by simp
  next
    case (Cons y ys)
    with Cons.prems Cons.IH [of "Some x"] show ?thesis by auto
  qed
qed

lemma seg_set_hd_prev:
  "seg vt p xs e \<Longrightarrow> xs \<noteq> [] \<Longrightarrow> distinct xs \<Longrightarrow>
   seg (vt(hd xs := (vt (hd xs))\<lparr>v_prev := p'\<rparr>)) p' xs e"
proof (cases xs)
  case Nil
  then show "xs \<noteq> [] \<Longrightarrow> ?thesis" by simp
next
  case (Cons x ys)
  assume s: "seg vt p xs e" and d: "distinct xs"
  have "seg (vt(x := (vt x)\<lparr>v_prev := p'\<rparr>)) (Some x) ys e = seg vt (Some x) ys e"
    using d Cons by (intro seg_cong) auto
  with s Cons show ?thesis by (auto split: list.splits)
qed

lemma dequeue_queue_list:
  assumes q: "queue_list st q" and v: "v \<in> set q"
  shows "queue_list (dequeue v st) (remove1 v q)"
proof -
  from v obtain xs zs where split: "q = xs @ v # zs"
    by (auto simp: in_set_conv_decomp)
  from q have d: "distinct q" and s: "seg (vtab st) None q None"
    and f: "q_first (queue st) = (case q of [] \<Rightarrow> None | x # _ \<Rightarrow> Some x)"
    and l: "q_last (queue st) = Some (last q)"
    using v by (auto simp: queue_list_def)
  from d split have nin: "v \<notin> set xs" "v \<notin> set zs" and dx: "distinct xs" and dz: "distinct zs"
    and disj: "set xs \<inter> set zs = {}"
    by auto
  have rem: "remove1 v q = xs @ zs"
    using nin split by (simp add: remove1_append)
  have dr: "distinct (xs @ zs)"
    using dx dz disj by simp
  from s split have sx: "seg (vtab st) None xs (Some v)"
    and pv: "v_prev (vtab st v) = (if xs = [] then None else Some (last xs))"
    and nv: "v_next (vtab st v) = (case zs of [] \<Rightarrow> None | y # _ \<Rightarrow> Some y)"
    and sz: "seg (vtab st) (Some v) zs None"
    by (simp_all add: seg_append)
  have goal: "queue_list (dequeue v st) (xs @ zs)"
  proof (cases xs rule: rev_cases)
    case Nil
    note xs = this
    have f': "q_first (queue st) = Some v"
      using f split xs by simp
    show ?thesis
    proof (cases zs)
      case Nil
      have "vtab (dequeue v st) = vtab st"
        and "queue (dequeue v st) = (queue st)\<lparr>q_first := None, q_last := None\<rparr>"
        using pv nv xs Nil by (simp_all add: dequeue_def Let_def)
      then show ?thesis
        using xs Nil by (simp add: queue_list_def)
    next
      case (Cons n ys)
      have vt: "vtab (dequeue v st) = (vtab st)(n := (vtab st n)\<lparr>v_prev := None\<rparr>)"
        and qu: "queue (dequeue v st) = (queue st)\<lparr>q_first := Some n\<rparr>"
        using pv nv xs Cons by (simp_all add: dequeue_def Let_def set_prev_def)
      have "seg ((vtab st)(hd zs := (vtab st (hd zs))\<lparr>v_prev := None\<rparr>)) None zs None"
        using sz dz Cons by (intro seg_set_hd_prev) auto
      then have "seg (vtab (dequeue v st)) None (n # ys) None"
        using vt Cons by simp
      moreover have "last q = last (n # ys)"
        using split Cons by simp
      ultimately show ?thesis
        using xs Cons dz l qu unfolding queue_list_def by simp
    qed
  next
    case (snoc xs' a)
    note xs = this
    have sx': "seg ((vtab st)(a := (vtab st a)\<lparr>v_next := e\<rparr>)) None (xs' @ [a]) e" for e
      using seg_set_last_next [OF sx _ dx, of e] xs by simp
    have f': "q_first (queue st) = (case xs' @ [a] of [] \<Rightarrow> None | x # _ \<Rightarrow> Some x)"
      using f split xs by (cases xs') simp_all
    have pa: "v_prev (vtab st v) = Some a"
      using pv xs by simp
    show ?thesis
    proof (cases zs)
      case Nil
      have vt: "vtab (dequeue v st) = (vtab st)(a := (vtab st a)\<lparr>v_next := None\<rparr>)"
        and qu: "queue (dequeue v st) = (queue st)\<lparr>q_last := Some a\<rparr>"
        using pa nv Nil by (simp_all add: dequeue_def Let_def set_next_def)
      show ?thesis
        using xs Nil dx f' qu vt sx' [of None] unfolding queue_list_def by simp
    next
      case (Cons n ys)
      have an: "a \<noteq> n" "a \<notin> set ys" "n \<notin> set xs'"
        using disj xs Cons by auto
      let ?vt1 = "(vtab st)(a := (vtab st a)\<lparr>v_next := Some n\<rparr>)"
      let ?vt2 = "?vt1(n := (vtab st n)\<lparr>v_prev := Some a\<rparr>)"
      have vt: "vtab (dequeue v st) = ?vt2"
        and qu: "queue (dequeue v st) = queue st"
        using pa nv Cons an by (simp_all add: dequeue_def Let_def set_next_def set_prev_def)
      have 1: "seg ?vt2 None (xs' @ [a]) (Some n)"
      proof -
        have "seg ?vt2 None (xs' @ [a]) (Some n) = seg ?vt1 None (xs' @ [a]) (Some n)"
          using an by (intro seg_cong) auto
        with sx' [of "Some n"] show ?thesis by simp
      qed
      have 2: "seg ?vt2 (Some a) (n # ys) None"
      proof -
        have "seg ?vt1 (Some v) (n # ys) None = seg (vtab st) (Some v) (n # ys) None"
          using an by (intro seg_cong) auto
        with sz Cons have a1: "seg ?vt1 (Some v) (n # ys) None" by simp
        have a2: "distinct (n # ys)" using dz Cons by simp
        from seg_set_hd_prev [OF a1 _ a2, of "Some a"] an show ?thesis by simp
      qed
      have 3: "seg ?vt2 None ((xs' @ [a]) @ (n # ys)) None"
        unfolding seg_append [of ?vt2 None "xs' @ [a]" "n # ys" None] using 1 2 by simp
      have 4: "last q = last ((xs' @ [a]) @ (n # ys))"
        using split Cons by simp
      have 5: "(case xs' @ [a] of [] \<Rightarrow> None | x # _ \<Rightarrow> Some x) =
          (case xs' @ a # n # ys of [] \<Rightarrow> None | x # _ \<Rightarrow> Some x)"
        by (cases xs') simp_all
      show ?thesis
        unfolding queue_list_def xs Cons vt qu
        using 3 4 5 dr f' l xs Cons by (simp del: fun_upd_apply seg.simps)
    qed
  qed
  then show ?thesis by (simp add: rem)
qed

lemma enqueue_queue_list:
  assumes q: "queue_list st r" and v: "v \<notin> set r"
  shows "queue_list (enqueue v st) (v # r)"
proof (cases r)
  case Nil
  with q show ?thesis
    by (simp add: queue_list_def enqueue_def set_next_def set_prev_def Let_def)
next
  case (Cons h t)
  from q have d: "distinct r" and s: "seg (vtab st) None r None"
    and f: "q_first (queue st) = Some h"
    and l: "q_last (queue st) = Some (last r)"
    using Cons by (simp_all add: queue_list_def)
  let ?vt1 = "(vtab st)(v := (vtab st v)\<lparr>v_prev := None, v_next := Some h\<rparr>)"
  let ?vt2 = "?vt1(h := (?vt1 h)\<lparr>v_prev := Some v\<rparr>)"
  have vh: "v \<noteq> h" using v Cons by auto
  have "seg ?vt1 None r None = seg (vtab st) None r None"
    using v by (intro seg_cong) auto
  with s have "seg ?vt1 None r None" by simp
  from seg_set_hd_prev [OF this _ d, of "Some v"] Cons have "seg ?vt2 (Some v) r None"
    by simp
  moreover have "vtab (enqueue v st) = ?vt2"
    using f vh by (simp add: enqueue_def set_next_def set_prev_def Let_def)
  moreover have "queue (enqueue v st) = (queue st)\<lparr>q_first := Some v\<rparr>"
    using f by (simp add: enqueue_def set_next_def set_prev_def Let_def)
  ultimately show ?thesis
    using d v l vh Cons by (simp add: queue_list_def)
qed

lemma queue_list_next_mem:
  assumes "queue_list st q" and "v \<in> set q"
  shows "v_next (vtab st v) = None \<longleftrightarrow> v = last q"
proof -
  from assms(2) obtain xs zs where split: "q = xs @ v # zs"
    by (auto simp: in_set_conv_decomp)
  from assms(1) split have d: "distinct (xs @ v # zs)" and "seg (vtab st) None (xs @ v # zs) None"
    by (simp_all add: queue_list_def)
  then have "v_next (vtab st v) = (case zs of [] \<Rightarrow> None | y # _ \<Rightarrow> Some y)"
    by (simp add: seg_append)
  moreover have "v = last (xs @ v # zs) \<longleftrightarrow> zs = []"
    using d by (cases zs rule: rev_cases) auto
  ultimately show ?thesis
    using split by (auto split: list.splits)
qed

lemma queue_list_cong:
  assumes "\<And>x. v_prev (vtab st' x) = v_prev (vtab st x)"
    and "\<And>x. v_next (vtab st' x) = v_next (vtab st x)"
    and "q_first (queue st') = q_first (queue st)"
    and "q_last (queue st') = q_last (queue st)"
  shows "queue_list st' q = queue_list st q"
proof -
  have "seg (vtab st') None q None = seg (vtab st) None q None"
    using assms(1,2) by (intro seg_cong) simp
  with assms(3,4) show ?thesis by (simp add: queue_list_def)
qed

lemma queue_list_links_mem:
  assumes "queue_list st q" and "v \<in> set q"
  shows "v_prev (vtab st v) = Some p \<Longrightarrow> p \<in> set q"
    and "v_next (vtab st v) = Some n \<Longrightarrow> n \<in> set q"
proof -
  from assms(2) obtain xs zs where split: "q = xs @ v # zs"
    by (auto simp: in_set_conv_decomp)
  from assms(1) split have "seg (vtab st) None (xs @ v # zs) None"
    by (simp add: queue_list_def)
  then have pv: "v_prev (vtab st v) = (if xs = [] then None else Some (last xs))"
    and nv: "v_next (vtab st v) = (case zs of [] \<Rightarrow> None | y # _ \<Rightarrow> Some y)"
    by (simp_all add: seg_append)
  show "v_prev (vtab st v) = Some p \<Longrightarrow> p \<in> set q"
    using pv split by (auto split: if_splits)
  show "v_next (vtab st v) = Some n \<Longrightarrow> n \<in> set q"
    using nv split by (auto split: list.splits)
qed

lemma queue_list_first_mem:
  "queue_list st q \<Longrightarrow> q_first (queue st) = Some f \<Longrightarrow> f \<in> set q"
  by (auto simp: queue_list_def split: list.splits)

lemma dequeue_frame:
  "vals (dequeue v st) = vals st" "stats (dequeue v st) = stats st"
  "scinc (dequeue v st) = scinc st" "max_var (dequeue v st) = max_var st"
  "q_assigned (queue (dequeue v st)) = q_assigned (queue st)"
  "v_score (vtab (dequeue v st) x) = v_score (vtab st x)"
  "v_bumped (vtab (dequeue v st) x) = v_bumped (vtab st x)"
  by (simp_all add: dequeue_def set_next_def set_prev_def Let_def split: option.splits)

lemma enqueue_frame:
  "vals (enqueue v st) = vals st" "stats (enqueue v st) = stats st"
  "scinc (enqueue v st) = scinc st" "max_var (enqueue v st) = max_var st"
  "q_assigned (queue (enqueue v st)) = q_assigned (queue st)"
  "v_score (vtab (enqueue v st) x) = v_score (vtab st x)"
  "v_bumped (vtab (enqueue v st) x) = v_bumped (vtab st x)"
  by (simp_all add: enqueue_def set_next_def set_prev_def Let_def split: option.splits)

lemma dequeue_other:
  assumes "queue_list st q" and "v \<in> set q" and "x \<notin> set q"
  shows "vtab (dequeue v st) x = vtab st x"
  using queue_list_links_mem [OF assms(1,2)] assms(3)
  by (auto simp: dequeue_def set_next_def set_prev_def Let_def split: option.splits)

lemma enqueue_other:
  assumes "queue_list st r" and "x \<notin> set r" and "x \<noteq> v"
  shows "vtab (enqueue v st) x = vtab st x"
  using queue_list_first_mem [OF assms(1)] assms(2,3)
  by (auto simp: enqueue_def set_next_def set_prev_def Let_def split: option.splits)

lemma relinked_queue_list:
  assumes "queue_list st q" and "v \<in> set q"
  shows "queue_list (relinked v st) (v # remove1 v q)"
proof -
  let ?st1 = "if q_assigned (queue st) = Some v
        then st\<lparr>queue := (queue st)\<lparr>q_assigned :=
               (case v_prev (vtab st v) of Some p \<Rightarrow> Some p | None \<Rightarrow> v_next (vtab st v))\<rparr>\<rparr>
        else st"
  have "queue_list ?st1 q = queue_list st q"
    by (intro queue_list_cong) simp_all
  with assms have "queue_list ?st1 q" by simp
  from dequeue_queue_list [OF this assms(2)]
  have "queue_list (dequeue v ?st1) (remove1 v q)" .
  moreover have "v \<notin> set (remove1 v q)"
    using assms by (simp add: queue_list_def)
  ultimately show ?thesis
    unfolding relinked_def by (rule enqueue_queue_list)
qed

lemma relinked_other:
  assumes "queue_list st q" and "v \<in> set q" and "x \<notin> set q"
  shows "vtab (relinked v st) x = vtab st x"
proof -
  let ?st1 = "if q_assigned (queue st) = Some v
        then st\<lparr>queue := (queue st)\<lparr>q_assigned :=
               (case v_prev (vtab st v) of Some p \<Rightarrow> Some p | None \<Rightarrow> v_next (vtab st v))\<rparr>\<rparr>
        else st"
  have "queue_list ?st1 q = queue_list st q"
    by (intro queue_list_cong) simp_all
  with assms have q1: "queue_list ?st1 q" by simp
  have x: "x \<notin> set (remove1 v q)" "x \<noteq> v"
    using assms(2,3) notin_set_remove1 by fastforce+
  have "vtab (relinked v st) x = vtab (dequeue v ?st1) x"
    unfolding relinked_def
    by (rule enqueue_other [OF dequeue_queue_list [OF q1 assms(2)] x])
  also have "\<dots> = vtab ?st1 x"
    by (rule dequeue_other [OF q1 assms(2,3)])
  finally show ?thesis by simp
qed

lemma relinked_frame:
  "vals (relinked v st) = vals st" "stats (relinked v st) = stats st"
  "scinc (relinked v st) = scinc st" "max_var (relinked v st) = max_var st"
  "v_score (vtab (relinked v st) x) = v_score (vtab st x)"
  "v_bumped (vtab (relinked v st) x) = v_bumped (vtab st x)"
  by (simp_all add: relinked_def enqueue_frame dequeue_frame)

lemma relinked_assigned:
  "q_assigned (queue (relinked v st)) =
     (if q_assigned (queue st) = Some v
      then (case v_prev (vtab st v) of Some p \<Rightarrow> Some p | None \<Rightarrow> v_next (vtab st v))
      else q_assigned (queue st))"
  by (simp add: relinked_def enqueue_frame dequeue_frame)

lemma bump_variable_unfold:
  assumes "v_next (vtab st v) = Some n"
  shows "bump_variable ar v st =
     (let st2 = relinked v st;
          st3 = st2\<lparr>stats := (stats st2)\<lparr>s_bumped := s_bumped (stats st2) + 1\<rparr>\<rparr>;
          st4 = st3\<lparr>vtab := (vtab st3)(v := (vtab st3 v)\<lparr>v_bumped := s_bumped (stats st3)\<rparr>)\<rparr>;
          st5 = st4\<lparr>vtab := (vtab st4)(v := (vtab st4 v)\<lparr>v_score :=
                        d_add ar (v_score (vtab st4 v)) (scinc st4)\<rparr>)\<rparr>;
          st6 = (if d_gt_1e100 ar (v_score (vtab st5 v)) then rescore ar st5 else st5)
      in if vals st6 v = 0
         then st6\<lparr>queue := (queue st6)\<lparr>q_assigned := Some v\<rparr>\<rparr>
         else st6)"
  using assms by (simp add: bump_variable_def relinked_def Let_def)

lemma bump_variable_links:
  assumes "v_next (vtab st v) = Some n"
  shows "v_prev (vtab (bump_variable ar v st) x) = v_prev (vtab (relinked v st) x)"
    and "v_next (vtab (bump_variable ar v st) x) = v_next (vtab (relinked v st) x)"
    and "q_first (queue (bump_variable ar v st)) = q_first (queue (relinked v st))"
    and "q_last (queue (bump_variable ar v st)) = q_last (queue (relinked v st))"
    and "vals (bump_variable ar v st) = vals st"
    and "q_assigned (queue (bump_variable ar v st)) =
           (if vals st v = 0 then Some v else q_assigned (queue (relinked v st)))"
    and "s_bumped (stats (bump_variable ar v st)) = s_bumped (stats st) + 1"
    and "v_bumped (vtab (bump_variable ar v st) x) =
           (if x = v then s_bumped (stats st) + 1 else v_bumped (vtab st x))"
    and "max_var (bump_variable ar v st) = max_var st"
  unfolding bump_variable_unfold [OF assms]
  by (simp_all add: Let_def rescore_def relinked_frame)

lemma bump_variable_score:
  assumes "v_next (vtab st v) = Some n"
  shows "\<not> d_gt_1e100 ar (d_add ar (v_score (vtab st v)) (scinc st)) \<Longrightarrow>
           scinc (bump_variable ar v st) = scinc st \<and>
           s_rescored (stats (bump_variable ar v st)) = s_rescored (stats st) \<and>
           v_score (vtab (bump_variable ar v st) x) =
             (if x = v then d_add ar (v_score (vtab st v)) (scinc st) else v_score (vtab st x))"
    and "d_gt_1e100 ar (d_add ar (v_score (vtab st v)) (scinc st)) \<Longrightarrow>
           scinc (bump_variable ar v st) = d_one ar \<and>
           s_rescored (stats (bump_variable ar v st)) = s_rescored (stats st) + 1 \<and>
           v_score (vtab (bump_variable ar v st) x) =
             (let s = (if x = v then d_add ar (v_score (vtab st v)) (scinc st)
                       else v_score (vtab st x))
              in if 1 \<le> x \<and> x \<le> max_var st then d_div ar s (scinc st) else s)"
  unfolding bump_variable_unfold [OF assms]
  by (simp_all add: Let_def rescore_def relinked_frame)

lemma takeWhile_remove1:
  "a \<noteq> v \<Longrightarrow> takeWhile (\<lambda>x. x \<noteq> a) (remove1 v q) = remove1 v (takeWhile (\<lambda>x. x \<noteq> a) q)"
  by (induction q) auto

lemma set_cons_remove1: "v \<in> set q \<Longrightarrow> set (v # remove1 v q) = set q"
  by (induction q) auto

lemma bump_variable_queue_inv:
  assumes inv: "queue_inv st q"
  shows "\<exists>q'. set q' = set q \<and> queue_inv (bump_variable ar v st) q'"
proof (cases "v_next (vtab st v)")
  case None
  then have "bump_variable ar v st = st"
    by (simp add: bump_variable_def)
  with inv show ?thesis by auto
next
  case (Some n)
  let ?st' = "bump_variable ar v st"
  let ?q' = "v # remove1 v q"
  from inv have ql: "queue_list st q"
    and det: "\<And>x. x \<notin> set q \<Longrightarrow> v_next (vtab st x) = None"
    and fr: "frontier_ok st q"
    by (simp_all add: queue_inv_def)
  from det [of v] Some have v: "v \<in> set q" by auto
  have sets: "set ?q' = set q"
    using v by (rule set_cons_remove1)
  note links = bump_variable_links [OF Some, of ar]
  have "queue_list ?st' ?q' = queue_list (relinked v st) ?q'"
    by (intro queue_list_cong links)
  then have ql': "queue_list ?st' ?q'"
    using relinked_queue_list [OF ql v] by simp
  have det': "v_next (vtab ?st' x) = None" if "x \<notin> set ?q'" for x
  proof -
    from that sets have x: "x \<notin> set q" by blast
    have "v_next (vtab ?st' x) = v_next (vtab (relinked v st) x)"
      by (rule links)
    also have "\<dots> = v_next (vtab st x)"
      by (simp add: relinked_other [OF ql v x])
    finally show ?thesis using det [OF x] by simp
  qed
  have vals': "vals ?st' = vals st"
    by (rule links)
  have fr': "frontier_ok ?st' ?q'"
  proof (cases "vals st v = 0")
    case True
    then have "q_assigned (queue ?st') = Some v"
      by (simp add: links)
    with True show ?thesis
      by (simp add: frontier_ok_def vals')
  next
    case False
    show ?thesis
      unfolding frontier_ok_def
    proof
      assume "\<exists>u \<in> set ?q'. vals ?st' u = 0"
      with sets vals' have "\<exists>u \<in> set q. vals st u = 0" by simp
      with fr obtain a where a: "q_assigned (queue st) = Some a" "a \<in> set q" "vals st a = 0"
        and before: "\<forall>u \<in> set (takeWhile (\<lambda>x. x \<noteq> a) q). vals st u \<noteq> 0"
        by (auto simp: frontier_ok_def)
      from a False have av: "a \<noteq> v" by auto
      have "q_assigned (queue ?st') = Some a"
        using False a av by (simp add: links relinked_assigned)
      moreover have "a \<in> set ?q'"
        using a sets by simp
      moreover have "\<forall>u \<in> set (takeWhile (\<lambda>x. x \<noteq> a) ?q'). vals ?st' u \<noteq> 0"
      proof
        fix u assume "u \<in> set (takeWhile (\<lambda>x. x \<noteq> a) ?q')"
        with av have "u = v \<or> u \<in> set (remove1 v (takeWhile (\<lambda>x. x \<noteq> a) q))"
          by (auto simp: takeWhile_remove1)
        then have "u = v \<or> u \<in> set (takeWhile (\<lambda>x. x \<noteq> a) q)"
          using notin_set_remove1 by fastforce
        with before False show "vals ?st' u \<noteq> 0"
          by (auto simp: vals')
      qed
      ultimately show "\<exists>a. q_assigned (queue ?st') = Some a \<and> a \<in> set ?q' \<and>
          vals ?st' a = 0 \<and> (\<forall>u \<in> set (takeWhile (\<lambda>x. x \<noteq> a) ?q'). vals ?st' u \<noteq> 0)"
        using a by (auto simp: vals')
    qed
  qed
  from ql' det' fr' have "queue_inv ?st' ?q'"
    by (simp add: queue_inv_def)
  with sets show ?thesis by blast
qed

text \<open>
  Claim C6.  Start from a state with the queue invariant for the list \<open>q\<close> of
  its queue and call \<open>bump_variable\<close> on any sequence of variables.  The queue
  of the resulting state is again a list \<open>q'\<close> of the same variables, variables
  outside it have no \<^verbatim>\<open>next\<close> link, and whenever a variable of the queue is
  unassigned, \<^verbatim>\<open>queue.assigned\<close> points to an unassigned variable of the queue and
  no unassigned variable is in front of it.
\<close>

theorem bump_sequence_queue_inv:
  assumes "queue_inv st q"
  shows "\<exists>q'. set q' = set q \<and> queue_list (bump_sequence ar vs st) q' \<and>
           (\<forall>x. x \<notin> set q' \<longrightarrow> v_next (vtab (bump_sequence ar vs st) x) = None) \<and>
           ((\<exists>u \<in> set q'. vals (bump_sequence ar vs st) u = 0) \<longrightarrow>
              (\<exists>a. q_assigned (queue (bump_sequence ar vs st)) = Some a \<and> a \<in> set q' \<and>
                   vals (bump_sequence ar vs st) a = 0 \<and>
                   (\<forall>u \<in> set (takeWhile (\<lambda>x. x \<noteq> a) q').
                      vals (bump_sequence ar vs st) u \<noteq> 0)))"
proof -
  have "\<exists>q'. set q' = set q \<and> queue_inv (bump_sequence ar vs st) q'"
    using assms
  proof (induction vs arbitrary: st q)
    case Nil
    then show ?case by auto
  next
    case (Cons v vs)
    from bump_variable_queue_inv [OF Cons.prems, of ar v]
    obtain q1 where q1: "set q1 = set q" "queue_inv (bump_variable ar v st) q1"
      by blast
    from Cons.IH [OF q1(2)] q1(1) show ?case by auto
  qed
  then show ?thesis
    unfolding queue_inv_def frontier_ok_def by blast
qed

theorem bump_sequence_queue_inv_witness:
  "queue_inv ex_queue [4, 3, 2, 1] \<and>
   (\<exists>q'. set q' = set [4, 3, 2, 1] \<and>
      queue_list (bump_sequence real_arith [2, 4, 1, 7] ex_queue) q' \<and>
      (\<exists>a. q_assigned (queue (bump_sequence real_arith [2, 4, 1, 7] ex_queue)) = Some a \<and>
           a \<in> set q' \<and> vals (bump_sequence real_arith [2, 4, 1, 7] ex_queue) a = 0)) \<and>
   q_assigned (queue (bump_sequence real_arith [2, 4, 1, 7] ex_queue)) = Some 2 \<and>
   q_first (queue (bump_sequence real_arith [2, 4, 1, 7] ex_queue)) = Some 4 \<and>
   v_next (vtab (bump_sequence real_arith [2, 4, 1, 7] ex_queue) 4) = Some 2 \<and>
   vals (bump_sequence real_arith [2, 4, 1, 7] ex_queue) 4 = 1 \<and>
   vals (bump_sequence real_arith [2, 4, 1, 7] ex_queue) 2 = 0"
proof -
  have inv: "queue_inv ex_queue [4, 3, 2, 1]"
    by (simp add: queue_inv_def queue_list_def frontier_ok_def ex_defs2)
  have v: "vals (bump_sequence real_arith [2, 4, 1, 7] ex_queue) 2 = 0"
    by code_simp
  from bump_sequence_queue_inv [OF inv, of real_arith "[2, 4, 1, 7]"]
  obtain q' where q': "set q' = set [4, 3, 2, 1]"
    "queue_list (bump_sequence real_arith [2, 4, 1, 7] ex_queue) q'"
    "(\<exists>u \<in> set q'. vals (bump_sequence real_arith [2, 4, 1, 7] ex_queue) u = 0) \<longrightarrow>
       (\<exists>a. q_assigned (queue (bump_sequence real_arith [2, 4, 1, 7] ex_queue)) = Some a \<and>
            a \<in> set q' \<and> vals (bump_sequence real_arith [2, 4, 1, 7] ex_queue) a = 0 \<and>
            (\<forall>u \<in> set (takeWhile (\<lambda>x. x \<noteq> a) q').
               vals (bump_sequence real_arith [2, 4, 1, 7] ex_queue) u \<noteq> 0))"
    by blast
  from q'(1) v have "\<exists>u \<in> set q'. vals (bump_sequence real_arith [2, 4, 1, 7] ex_queue) u = 0"
    by auto
  with q'(3) have "\<exists>a. q_assigned (queue (bump_sequence real_arith [2, 4, 1, 7] ex_queue)) = Some a \<and>
           a \<in> set q' \<and> vals (bump_sequence real_arith [2, 4, 1, 7] ex_queue) a = 0"
    by blast
  with q'(1,2) have ex: "\<exists>q'. set q' = set [4, 3, 2, 1] \<and>
      queue_list (bump_sequence real_arith [2, 4, 1, 7] ex_queue) q' \<and>
      (\<exists>a. q_assigned (queue (bump_sequence real_arith [2, 4, 1, 7] ex_queue)) = Some a \<and>
           a \<in> set q' \<and> vals (bump_sequence real_arith [2, 4, 1, 7] ex_queue) a = 0)"
    by blast
  have c: "q_assigned (queue (bump_sequence real_arith [2, 4, 1, 7] ex_queue)) = Some 2"
    "q_first (queue (bump_sequence real_arith [2, 4, 1, 7] ex_queue)) = Some 4"
    "v_next (vtab (bump_sequence real_arith [2, 4, 1, 7] ex_queue) 4) = Some 2"
    "vals (bump_sequence real_arith [2, 4, 1, 7] ex_queue) 4 = 1"
    by code_simp+
  show ?thesis
    using inv ex c v by blast
qed

text \<open>
  The variable at the tail of the queue is linked and has no \<^verbatim>\<open>next\<close> link.
  The guard \<^verbatim>\<open>if (!v->next) return\<close> of \<open>bump_variable\<close> returns for it: it
  is not moved to the front, its stamp and its score stay as they are.  The
  comment before \<^verbatim>\<open>bump_variable\<close> says that the bumped variables are moved to
  the front of the queue and stamped.
\<close>

lemma bump_variable_tail:
  assumes "queue_list st q" and "q \<noteq> []"
  shows "last q \<in> set q \<and> bump_variable ar (last q) st = st"
proof -
  from assms(2) have m: "last q \<in> set q" by simp
  with queue_list_next_mem [OF assms(1) m] have "v_next (vtab st (last q)) = None"
    by simp
  then have "bump_variable ar (last q) st = st"
    by (simp add: bump_variable_def)
  with m show ?thesis by simp
qed

text \<open>
  Claim C7 as stated fails on the score.  When the new score exceeds the
  threshold, \<open>bump_variable\<close> rescales it at once.  In the example the queue
  is 4, 3, 2, 1, the increment \<open>6 * 10 ^ 99\<close> does not exceed the threshold, and
  variable 3 is linked, has a \<^verbatim>\<open>next\<close> link and has the score \<open>6 * 10 ^ 99\<close>.
  After the call its score is 2 and not the old score plus the increment, and
  the score of variable 2, which is not bumped, has changed from \<open>3 * 10 ^ 99\<close> to
  one half.
\<close>

theorem bump_variable_score_counterexample:
  "queue_list ex_near [4, 3, 2, 1] \<and> v_next (vtab ex_near 3) = Some 2 \<and>
   \<not> d_gt_1e100 real_arith (scinc ex_near) \<and>
   \<not> d_gt_1e100 real_arith (v_score (vtab ex_near 3)) \<and>
   d_add real_arith (v_score (vtab ex_near 3)) (scinc ex_near) = 12 * 10 ^ 99 \<and>
   v_score (vtab (bump_variable real_arith 3 ex_near) 3) = 2 \<and>
   v_score (vtab (bump_variable real_arith 3 ex_near) 3)
     \<noteq> d_add real_arith (v_score (vtab ex_near 3)) (scinc ex_near) \<and>
   v_score (vtab ex_near 2) = 3 * 10 ^ 99 \<and>
   v_score (vtab (bump_variable real_arith 3 ex_near) 2) = 1 / 2"
proof -
  have ql: "queue_list ex_near [4, 3, 2, 1]"
    by (simp add: queue_list_def ex_defs2)
  have n: "v_next (vtab ex_near 3) = Some 2"
    by (simp add: ex_defs2)
  have b: "\<not> d_gt_1e100 real_arith (scinc ex_near)"
    "\<not> d_gt_1e100 real_arith (v_score (vtab ex_near 3))"
    by (simp_all add: ex_defs2)
  have s: "d_add real_arith (v_score (vtab ex_near 3)) (scinc ex_near) = 12 * 10 ^ 99"
    by (simp add: ex_defs2)
  have g: "d_gt_1e100 real_arith (d_add real_arith (v_score (vtab ex_near 3)) (scinc ex_near))"
    unfolding s by (simp add: real_arith_def)
  have v: "max_var ex_near = 4" "scinc ex_near = 6 * 10 ^ 99"
    "v_score (vtab ex_near 2) = 3 * 10 ^ 99"
    "d_div real_arith (12 * 10 ^ 99) (6 * 10 ^ 99) = 2"
    "d_div real_arith (3 * 10 ^ 99) (6 * 10 ^ 99) = 1 / 2"
    by (simp_all add: ex_defs2)
  from bump_variable_score(2) [OF n g, of 3] s v
  have three: "v_score (vtab (bump_variable real_arith 3 ex_near) 3) = 2"
    by (simp add: Let_def)
  from bump_variable_score(2) [OF n g, of 2] v
  have two: "v_score (vtab (bump_variable real_arith 3 ex_near) 2) = 1 / 2"
    by (simp add: Let_def)
  have "(2::real) \<noteq> 12 * 10 ^ 99"
    by simp
  with ql n b s three two v(3) show ?thesis
    by simp
qed

text \<open>
  Claim C7, amended.  For a detached variable, which is not in the queue and has
  no \<^verbatim>\<open>next\<close> link, \<open>bump_variable\<close> leaves the state unchanged.  The
  variables of the queue with a \<^verbatim>\<open>next\<close> link are all but its tail.  For each of
  them the call changes the state: it relinks the variable at the front,
  increments \<^verbatim>\<open>stats.bumped\<close> and stamps the variable with the new value, which
  is above every stamp when no stamp was above the counter.  The new score of
  the variable is the sum of its old score and \<open>scinc\<close>.  When this sum does
  not exceed the threshold, it is the only score that changes and \<open>scinc\<close>
  stays.  When it exceeds the threshold, the scores of all the variables 1 to
  \<^verbatim>\<open>max_var\<close>, for the bumped one the sum, are divided by \<open>scinc\<close>, the
  counter \<^verbatim>\<open>stats.rescored\<close> goes up by one and \<open>scinc\<close> becomes 1.
\<close>

theorem bump_variable_effect:
  assumes ql: "queue_list st q"
  shows "(v \<notin> set q \<and> v_next (vtab st v) = None \<longrightarrow> bump_variable ar v st = st) \<and>
         (v \<in> set q \<longrightarrow> (v_next (vtab st v) \<noteq> None \<longleftrightarrow> v \<noteq> last q)) \<and>
         (v \<in> set q \<and> v_next (vtab st v) \<noteq> None \<longrightarrow>
            bump_variable ar v st \<noteq> st \<and>
            queue_list (bump_variable ar v st) (v # remove1 v q) \<and>
            s_bumped (stats (bump_variable ar v st)) = s_bumped (stats st) + 1 \<and>
            v_bumped (vtab (bump_variable ar v st) v) = s_bumped (stats st) + 1 \<and>
            ((\<forall>x. v_bumped (vtab st x) \<le> s_bumped (stats st)) \<longrightarrow>
               (\<forall>x. v_bumped (vtab st x) < v_bumped (vtab (bump_variable ar v st) v))) \<and>
            (\<not> d_gt_1e100 ar (d_add ar (v_score (vtab st v)) (scinc st)) \<longrightarrow>
               scinc (bump_variable ar v st) = scinc st \<and>
               s_rescored (stats (bump_variable ar v st)) = s_rescored (stats st) \<and>
               (\<forall>x. v_score (vtab (bump_variable ar v st) x) =
                  (if x = v then d_add ar (v_score (vtab st v)) (scinc st)
                   else v_score (vtab st x)))) \<and>
            (d_gt_1e100 ar (d_add ar (v_score (vtab st v)) (scinc st)) \<longrightarrow>
               scinc (bump_variable ar v st) = d_one ar \<and>
               s_rescored (stats (bump_variable ar v st)) = s_rescored (stats st) + 1 \<and>
               (\<forall>x. v_score (vtab (bump_variable ar v st) x) =
                  (if 1 \<le> x \<and> x \<le> max_var st
                   then d_div ar (if x = v then d_add ar (v_score (vtab st v)) (scinc st)
                                  else v_score (vtab st x)) (scinc st)
                   else if x = v then d_add ar (v_score (vtab st v)) (scinc st)
                   else v_score (vtab st x)))))"
proof (intro conjI impI)
  assume "v \<notin> set q \<and> v_next (vtab st v) = None"
  then show "bump_variable ar v st = st"
    by (simp add: bump_variable_def)
next
  assume "v \<in> set q"
  from queue_list_next_mem [OF ql this]
  show "v_next (vtab st v) \<noteq> None \<longleftrightarrow> v \<noteq> last q"
    by simp
next
  assume a: "v \<in> set q \<and> v_next (vtab st v) \<noteq> None"
  then have v: "v \<in> set q" by simp
  from a obtain n where n: "v_next (vtab st v) = Some n"
    by (cases "v_next (vtab st v)") auto
  note links = bump_variable_links [OF n, of ar]
  note score = bump_variable_score [OF n, of ar]
  from links(7) show "bump_variable ar v st \<noteq> st"
    by auto
  have "queue_list (bump_variable ar v st) (v # remove1 v q) =
      queue_list (relinked v st) (v # remove1 v q)"
    by (intro queue_list_cong links)
  then show "queue_list (bump_variable ar v st) (v # remove1 v q)"
    using relinked_queue_list [OF ql v] by simp
  show "s_bumped (stats (bump_variable ar v st)) = s_bumped (stats st) + 1"
    by (rule links)
  show b: "v_bumped (vtab (bump_variable ar v st) v) = s_bumped (stats st) + 1"
    by (simp add: links)
  {
    assume "\<forall>x. v_bumped (vtab st x) \<le> s_bumped (stats st)"
    then show "\<forall>x. v_bumped (vtab st x) < v_bumped (vtab (bump_variable ar v st) v)"
      unfolding b by (auto simp: less_eq_int_code intro: le_less_trans)
  }
  {
    assume g: "\<not> d_gt_1e100 ar (d_add ar (v_score (vtab st v)) (scinc st))"
    from score(1) [OF g]
    show "scinc (bump_variable ar v st) = scinc st"
      and "s_rescored (stats (bump_variable ar v st)) = s_rescored (stats st)"
      and "\<forall>x. v_score (vtab (bump_variable ar v st) x) =
                  (if x = v then d_add ar (v_score (vtab st v)) (scinc st)
                   else v_score (vtab st x))"
      by simp_all
  }
  {
    assume g: "d_gt_1e100 ar (d_add ar (v_score (vtab st v)) (scinc st))"
    from score(2) [OF g]
    show "scinc (bump_variable ar v st) = d_one ar"
      and "s_rescored (stats (bump_variable ar v st)) = s_rescored (stats st) + 1"
      and "\<forall>x. v_score (vtab (bump_variable ar v st) x) =
                  (if 1 \<le> x \<and> x \<le> max_var st
                   then d_div ar (if x = v then d_add ar (v_score (vtab st v)) (scinc st)
                                  else v_score (vtab st x)) (scinc st)
                   else if x = v then d_add ar (v_score (vtab st v)) (scinc st)
                   else v_score (vtab st x))"
      by (simp_all add: Let_def)
  }
qed

theorem bump_variable_effect_witness:
  "queue_list ex_state [4, 3, 2, 1] \<and>
   v_next (vtab ex_state 7) = None \<and> bump_variable real_arith 7 ex_state = ex_state \<and>
   v_next (vtab ex_state 3) = Some 2 \<and>
   bump_variable real_arith 3 ex_state \<noteq> ex_state \<and>
   queue_list (bump_variable real_arith 3 ex_state) [3, 4, 2, 1] \<and>
   s_bumped (stats (bump_variable real_arith 3 ex_state)) = 1 \<and>
   v_bumped (vtab (bump_variable real_arith 3 ex_state) 3) = 1 \<and>
   v_score (vtab (bump_variable real_arith 3 ex_state) 3) = 1 \<and>
   v_score (vtab (bump_variable real_arith 3 ex_state) 2) = 0 \<and>
   scinc (bump_variable real_arith 3 ex_state) = 1 \<and>
   queue_list ex_near [4, 3, 2, 1] \<and>
   queue_list (bump_variable real_arith 3 ex_near) [3, 4, 2, 1] \<and>
   scinc (bump_variable real_arith 3 ex_near) = 1 \<and>
   s_rescored (stats (bump_variable real_arith 3 ex_near)) = 1 \<and>
   v_score (vtab (bump_variable real_arith 3 ex_near) 3) = 2 \<and>
   v_score (vtab (bump_variable real_arith 3 ex_near) 2) = 1 / 2 \<and>
   v_score (vtab (bump_variable real_arith 3 ex_near) 7) = 0"
proof -
  have near: "queue_list ex_near [4, 3, 2, 1]"
    by (simp add: queue_list_def ex_defs2)
  have a: "v_next (vtab ex_state 7) = None" "(7::nat) \<notin> set [4, 3, 2, 1]"
    "(3::nat) \<in> set [4, 3, 2, 1]" "v_next (vtab ex_state 3) = Some 2"
    "v_next (vtab ex_near 3) = Some 2"
    "remove1 (3::nat) [4, 3, 2, 1] = [4, 2, 1]"
    by (simp_all add: ex_defs2)
  have vals: "s_bumped (stats ex_state) = 0" "v_score (vtab ex_state 3) = 0" "scinc ex_state = 1"
    "v_score (vtab ex_state 2) = 0"
    "\<not> d_gt_1e100 real_arith (d_add real_arith 0 1)" "d_add real_arith 0 1 = 1"
    "max_var ex_state = 4" "d_one real_arith = 1"
    by (simp_all add: ex_defs)
  have nvals: "s_rescored (stats ex_near) = 0" "v_score (vtab ex_near 3) = 6 * 10 ^ 99"
    "v_score (vtab ex_near 2) = 3 * 10 ^ 99" "v_score (vtab ex_near 7) = 0"
    "scinc ex_near = 6 * 10 ^ 99"
    "d_add real_arith (6 * 10 ^ 99) (6 * 10 ^ 99) = 12 * 10 ^ 99"
    "d_gt_1e100 real_arith (12 * 10 ^ 99)"
    "d_div real_arith (12 * 10 ^ 99) (6 * 10 ^ 99) = 2"
    "d_div real_arith (3 * 10 ^ 99) (6 * 10 ^ 99) = 1 / 2"
    "max_var ex_near = 4"
    by (simp_all add: ex_defs2)
  from bump_variable_effect [OF ex_queue_list, of 7 real_arith] a
  have one: "bump_variable real_arith 7 ex_state = ex_state"
    by simp
  from bump_variable_effect [OF ex_queue_list, of 3 real_arith] a vals
  have three: "bump_variable real_arith 3 ex_state \<noteq> ex_state \<and>
      queue_list (bump_variable real_arith 3 ex_state) [3, 4, 2, 1] \<and>
      s_bumped (stats (bump_variable real_arith 3 ex_state)) = 1 \<and>
      v_bumped (vtab (bump_variable real_arith 3 ex_state) 3) = 1 \<and>
      v_score (vtab (bump_variable real_arith 3 ex_state) 3) = 1 \<and>
      v_score (vtab (bump_variable real_arith 3 ex_state) 2) = 0 \<and>
      scinc (bump_variable real_arith 3 ex_state) = 1"
    by simp
  from bump_variable_effect [OF near, of 3 real_arith] a nvals vals(8)
  have four: "queue_list (bump_variable real_arith 3 ex_near) [3, 4, 2, 1] \<and>
      scinc (bump_variable real_arith 3 ex_near) = 1 \<and>
      s_rescored (stats (bump_variable real_arith 3 ex_near)) = 1 \<and>
      v_score (vtab (bump_variable real_arith 3 ex_near) 3) = 2 \<and>
      v_score (vtab (bump_variable real_arith 3 ex_near) 2) = 1 / 2 \<and>
      v_score (vtab (bump_variable real_arith 3 ex_near) 7) = 0"
    by simp
  show ?thesis
    using ex_queue_list one a(1,4) three near four by blast
qed
section \<open>The first UIP clause\<close>

lemma vidx_uminus [simp]: "vidx (- l) = vidx l"
  by (simp add: vidx_def)

lemma var_uminus [simp]: "var s (- l) = var s l"
  by (simp add: var_def)

lemma lev_uminus [simp]: "lev s (- l) = lev s l"
  by (simp add: lev_def)

lemma val_uminus: "l \<noteq> 0 \<Longrightarrow> val s (- l) = - val s l"
  by (simp add: val_def)

lemma lit_true_uminus: "l \<noteq> 0 \<Longrightarrow> lit_true M (- l) = (\<not> lit_true M l)"
  by (simp add: lit_true_def)

lemma static_eq_refl: "static_eq s s"
  by (simp add: static_eq_def)

lemma static_eq_trans: "static_eq s s' \<Longrightarrow> static_eq s' s'' \<Longrightarrow> static_eq s s''"
  by (simp add: static_eq_def)

lemma static_eq_lev: "static_eq s s' \<Longrightarrow> lev s' l = lev s l"
  by (simp add: static_eq_def lev_def var_def)

lemma static_eq_reason: "static_eq s s' \<Longrightarrow> v_reason (var s' l) = v_reason (var s l)"
  by (simp add: static_eq_def var_def)

lemma static_eq_val: "static_eq s s' \<Longrightarrow> val s' l = val s l"
  by (simp add: static_eq_def val_def)

lemma static_eq_fields:
  assumes "static_eq s s'"
  shows "trail s' = trail s" "level s' = level s" "clauses s' = clauses s" "vals s' = vals s"
  using assms by (simp_all add: static_eq_def)

lemma static_eq_trail_ok:
  assumes "static_eq s s'" and "trail_ok s"
  shows "trail_ok s'"
  using assms(2) unfolding trail_ok_def
  by (simp add: static_eq_fields [OF assms(1)] static_eq_lev [OF assms(1)]
      static_eq_reason [OF assms(1)] static_eq_val [OF assms(1)] cong: option.case_cong)

lemma finite_pending [simp]: "finite (pending s i)"
  by (rule finite_subset [of _ "{..<i}"]) (auto simp: pending_def)

lemma step_rel_refl: "step_rel i s opn s opn"
  by (simp add: step_rel_def static_eq_refl)

lemma step_rel_trans:
  "step_rel i s opn s' opn' \<Longrightarrow> step_rel i s' opn' s'' opn'' \<Longrightarrow> step_rel i s opn s'' opn''"
  unfolding step_rel_def by (auto intro: static_eq_trans)

lemma analyze_literal_skip:
  "v_seen (var s l) \<or> lev s l = 0 \<Longrightarrow> analyze_literal l s = Inr (False, s)"
  by (auto simp: analyze_literal_def lev_def Let_def)

lemma trail_vidx_eq:
  assumes "trail_ok s" and "k < length (trail s)" and "j < length (trail s)"
  shows "vidx (trail s ! k) = vidx (trail s ! j) \<longleftrightarrow> k = j"
proof -
  from assms(1) have "distinct (map vidx (trail s))"
    by (simp add: trail_ok_def)
  from nth_eq_iff_index_eq [OF this, of k j] assms(2,3) show ?thesis
    by simp
qed

lemma analyze_literal_new:
  assumes ok: "trail_ok s" and j: "j < length (trail s)" and l: "l = - (trail s ! j)"
    and unseen: "\<not> v_seen (var s l)" and nonroot: "lev s l \<noteq> 0"
  shows "\<exists>s'. analyze_literal l s = Inr (lev s l = level s, s') \<and> static_eq s s' \<and>
           vtab s' = (vtab s)(vidx l := (var s l)\<lparr>v_seen := True\<rparr>) \<and>
           clause s' = (if lev s l < level s then clause s @ [l] else clause s)"
proof -
  from ok j have t: "trail s ! j \<noteq> 0" "0 < val s (trail s ! j)"
    by (auto simp: trail_ok_def)
  then have neg: "val s l < 0"
    by (simp add: l val_uminus)
  show ?thesis
    using unseen nonroot neg
    by (simp add: analyze_literal_def lev_def Let_def static_eq_def var_def)
qed

lemma seen_after:
  assumes ok: "trail_ok s" and j: "j < length (trail s)" and k: "k < length (trail s)"
    and vt: "vtab s' = (vtab s)(vidx (trail s ! j) := (var s (trail s ! j))\<lparr>v_seen := True\<rparr>)"
    and tr: "trail s' = trail s"
  shows "v_seen (var s' (trail s' ! k)) \<longleftrightarrow> v_seen (var s (trail s ! k)) \<or> k = j"
  using trail_vidx_eq [OF ok k j] by (auto simp: var_def vt tr)

lemma pending_after:
  assumes ok: "trail_ok s" and j: "j < i" and i: "i \<le> length (trail s)"
    and vt: "vtab s' = (vtab s)(vidx (trail s ! j) := (var s (trail s ! j))\<lparr>v_seen := True\<rparr>)"
    and st: "static_eq s s'"
  shows "pending s' i =
           (if lev s (trail s ! j) = level s then insert j (pending s i) else pending s i)"
proof -
  have tr: "trail s' = trail s" and lv: "level s' = level s"
    using st by (simp_all add: static_eq_def)
  have seen: "v_seen (var s' (trail s' ! k)) \<longleftrightarrow> v_seen (var s (trail s ! k)) \<or> k = j"
    if "k < i" for k
    using seen_after [where j = j and k = k, OF ok _ _ vt tr] that j i by simp
  have "pending s' i = {k. k < i \<and> (v_seen (var s (trail s ! k)) \<or> k = j) \<and>
      lev s (trail s ! k) = level s}"
    unfolding pending_def using seen by (auto simp: tr lv static_eq_lev [OF st])
  also have "\<dots> = (if lev s (trail s ! j) = level s then insert j (pending s i) else pending s i)"
    using j by (auto simp: pending_def)
  finally show ?thesis .
qed

lemma step_new:
  assumes ok: "trail_ok s" and j: "j < i" and i: "i \<le> length (trail s)"
    and l: "l = - (trail s ! j)"
    and unseen: "\<not> v_seen (var s l)" and nonroot: "lev s l \<noteq> 0"
  shows "\<exists>s'. analyze_literal l s = Inr (lev s l = level s, s') \<and>
           step_rel i s opn s' (if lev s l = level s then opn + 1 else opn) \<and>
           v_seen (var s' l)"
proof -
  have jl: "j < length (trail s)" using j i by simp
  from analyze_literal_new [OF ok jl l unseen nonroot] obtain s' where
    run: "analyze_literal l s = Inr (lev s l = level s, s')" and st: "static_eq s s'"
    and vt: "vtab s' = (vtab s)(vidx l := (var s l)\<lparr>v_seen := True\<rparr>)"
    and cl: "clause s' = (if lev s l < level s then clause s @ [l] else clause s)"
    by blast
  have vt': "vtab s' = (vtab s)(vidx (trail s ! j) := (var s (trail s ! j))\<lparr>v_seen := True\<rparr>)"
    using vt l by simp
  have tr: "trail s' = trail s" and lv: "level s' = level s"
    using st by (simp_all add: static_eq_def)
  have mono: "v_seen (vtab s x) \<longrightarrow> v_seen (vtab s' x)" for x
    by (simp add: vt var_def)
  have now: "v_seen (var s' l)"
    by (simp add: vt var_def)
  have sub: "set (clause s) \<subseteq> set (clause s')"
    by (auto simp: cl)
  have ls: "lowseen s'" if "lowseen s"
    unfolding lowseen_def
  proof (intro allI impI)
    fix k assume k: "k < length (trail s')"
      and a: "v_seen (var s' (trail s' ! k)) \<and> lev s' (trail s' ! k) < level s'"
    from k tr have k': "k < length (trail s)" by simp
    from a seen_after [OF ok jl k' vt' tr]
    have "v_seen (var s (trail s ! k)) \<or> k = j" by simp
    then show "- (trail s' ! k) \<in> set (clause s')"
    proof
      assume "v_seen (var s (trail s ! k))"
      with a k' that have "- (trail s ! k) \<in> set (clause s)"
        by (simp add: lowseen_def tr lv static_eq_lev [OF st])
      with sub show ?thesis by (auto simp: tr)
    next
      assume "k = j"
      with a have "lev s l < level s"
        by (simp add: l tr lv static_eq_lev [OF st])
      with \<open>k = j\<close> show ?thesis by (simp add: cl l tr)
    qed
  qed
  have lb: "lowbuf s'" if "lowbuf s"
    using that by (auto simp: lowbuf_def cl lv static_eq_lev [OF st] split: if_splits)
  have unseen_j: "j \<notin> pending s i"
    using unseen l by (simp add: pending_def)
  have levl: "lev s (trail s ! j) = lev s l"
    by (simp add: l)
  have cnt: "(if lev s l = level s then opn + 1 else opn) - int (card (pending s' i)) =
      opn - int (card (pending s i))"
    unfolding pending_after [OF ok j i vt' st] levl
    using unseen_j by simp
  from st mono ls lb sub cnt
  have "step_rel i s opn s' (if lev s l = level s then opn + 1 else opn)"
    unfolding step_rel_def by blast
  with run now show ?thesis by blast
qed

lemma scan:
  assumes ok: "trail_ok s" and i: "i \<le> length (trail s)"
    and ls: "\<forall>l \<in> set ls. v_seen (var s l) \<or> (\<exists>j < i. trail s ! j = - l)"
  shows "\<exists>opn' s'. analyze_literals ls opn s = Inr (opn', s') \<and> step_rel i s opn s' opn' \<and>
           (\<forall>l \<in> set ls. lev s l \<noteq> 0 \<longrightarrow> v_seen (var s' l))"
  using assms
proof (induction ls arbitrary: s opn)
  case Nil
  then show ?case by (simp add: step_rel_refl)
next
  case (Cons l ls)
  have "\<exists>b s1. analyze_literal l s = Inr (b, s1) \<and>
      step_rel i s opn s1 (if b then opn + 1 else opn) \<and> (lev s l \<noteq> 0 \<longrightarrow> v_seen (var s1 l))"
  proof (cases "v_seen (var s l) \<or> lev s l = 0")
    case True
    from analyze_literal_skip [OF this] True show ?thesis
      by (auto simp: step_rel_refl)
  next
    case False
    with Cons.prems(3) obtain j where j: "j < i" "trail s ! j = - l"
      by auto
    then have l: "l = - (trail s ! j)" by simp
    have un: "\<not> v_seen (var s l)" "lev s l \<noteq> 0"
      using False by simp_all
    from step_new [OF Cons.prems(1) j(1) Cons.prems(2) l un, of opn] obtain s1 where
      "analyze_literal l s = Inr (lev s l = level s, s1)"
      "step_rel i s opn s1 (if lev s l = level s then opn + 1 else opn)"
      "v_seen (var s1 l)"
      by blast
    then have "analyze_literal l s = Inr (lev s l = level s, s1) \<and>
      step_rel i s opn s1 (if lev s l = level s then opn + 1 else opn) \<and>
      (lev s l \<noteq> 0 \<longrightarrow> v_seen (var s1 l))"
      by simp
    then show ?thesis
      by (intro exI [where x = "lev s l = level s"] exI [where x = s1])
  qed
  then obtain b s1 where run: "analyze_literal l s = Inr (b, s1)"
    and rel: "step_rel i s opn s1 (if b then opn + 1 else opn)"
    and now: "lev s l \<noteq> 0 \<longrightarrow> v_seen (var s1 l)"
    by blast
  from rel have st: "static_eq s s1" and mono: "\<And>x. v_seen (vtab s x) \<Longrightarrow> v_seen (vtab s1 x)"
    by (simp_all add: step_rel_def)
  have ok1: "trail_ok s1"
    by (rule static_eq_trail_ok [OF st Cons.prems(1)])
  have i1: "i \<le> length (trail s1)"
    using Cons.prems(2) st by (simp add: static_eq_def)
  have ls1: "\<forall>l \<in> set ls. v_seen (var s1 l) \<or> (\<exists>j < i. trail s1 ! j = - l)"
    using Cons.prems(3) mono st by (auto simp: static_eq_def var_def)
  from Cons.IH [OF ok1 i1 ls1, of "if b then opn + 1 else opn"] obtain opn' s' where
    run': "analyze_literals ls (if b then opn + 1 else opn) s1 = Inr (opn', s')"
    and rel': "step_rel i s1 (if b then opn + 1 else opn) s' opn'"
    and now': "\<forall>l \<in> set ls. lev s1 l \<noteq> 0 \<longrightarrow> v_seen (var s' l)"
    by blast
  have "analyze_literals (l # ls) opn s = Inr (opn', s')"
    using run run' by simp
  moreover have "step_rel i s opn s' opn'"
    by (rule step_rel_trans [OF rel rel'])
  moreover have "\<forall>x \<in> set (l # ls). lev s x \<noteq> 0 \<longrightarrow> v_seen (var s' x)"
  proof -
    from rel' have "\<And>x. v_seen (vtab s1 x) \<Longrightarrow> v_seen (vtab s' x)"
      by (simp add: step_rel_def)
    with now have "lev s l \<noteq> 0 \<longrightarrow> v_seen (var s' l)"
      by (simp add: var_def)
    with now' show ?thesis
      by (simp add: static_eq_lev [OF st])
  qed
  ultimately show ?case by blast
qed

lemma static_eq_backed:
  assumes "static_eq s s'"
  shows "backed s' M = backed s M"
  unfolding backed_def
  by (simp add: static_eq_fields [OF assms] static_eq_lev [OF assms]
      static_eq_reason [OF assms] cong: option.case_cong)

lemma find_seen_spec:
  assumes "\<exists>k < i. v_seen (var s (trail s ! k))"
  shows "\<exists>k. find_seen s i = Some (k, trail s ! k) \<and> k < i \<and> v_seen (var s (trail s ! k)) \<and>
           (\<forall>k'. k < k' \<and> k' < i \<longrightarrow> \<not> v_seen (var s (trail s ! k')))"
  using assms
proof (induction i)
  case 0
  then show ?case by simp
next
  case (Suc i)
  show ?case
  proof (cases "v_seen (var s (trail s ! i))")
    case True
    then show ?thesis by auto
  next
    case False
    with Suc.prems have "\<exists>k < i. v_seen (var s (trail s ! k))"
      by (metis less_Suc_eq)
    from Suc.IH [OF this] obtain k where k: "find_seen s i = Some (k, trail s ! k)" "k < i"
      "v_seen (var s (trail s ! k))"
      "\<forall>k'. k < k' \<and> k' < i \<longrightarrow> \<not> v_seen (var s (trail s ! k'))"
      by blast
    have "\<forall>k'. k < k' \<and> k' < Suc i \<longrightarrow> \<not> v_seen (var s (trail s ! k'))"
      using k(4) False by (auto simp: less_Suc_eq)
    with k False show ?thesis
      by (intro exI [where x = k]) simp
  qed
qed

lemma loop_correct:
  assumes "loop_inv s r opn i"
  shows "\<exists>s' uip. analyze_loop s r opn i = Inr (s', uip) \<and> static_eq s s' \<and> lowbuf s' \<and>
           lev s uip = level s \<and>
           (\<forall>M. backed s M \<and> resolvent s r i M \<longrightarrow>
                clause_true M (clause s') \<or> lit_true M (- uip))"
  using assms
proof (induction s r opn i rule: analyze_loop.induct)
  case (1 s r opn i)
  let ?ls = "literals (clauses s r)"
  let ?T = "trail s"
  from "1.prems" have ok: "trail_ok s" and i: "i \<le> length ?T"
    and A: "\<forall>l \<in> set ?ls. (i < length ?T \<and> l = ?T ! i \<and> v_seen (var s l)) \<or>
             (\<exists>j < i. ?T ! j = - l)"
    and B: "opn = int (card (pending s i))"
    and C: "1 \<le> opn \<or> (\<exists>l \<in> set ?ls. lev s l = level s \<and> (\<exists>j < i. ?T ! j = - l))"
    and lsn: "lowseen s" and lbf: "lowbuf s"
    unfolding loop_inv_def by blast+
  from ok have pos: "0 < level s" and nz: "\<And>t. t \<in> set ?T \<Longrightarrow> t \<noteq> 0"
    and bound: "\<And>t. t \<in> set ?T \<Longrightarrow> 0 \<le> lev s t \<and> lev s t \<le> level s"
    and sorted: "\<And>k j. k < length ?T \<Longrightarrow> j < k \<Longrightarrow> lev s (?T ! j) \<le> lev s (?T ! k)"
    by (auto simp: trail_ok_def)
  have pre: "\<forall>l \<in> set ?ls. v_seen (var s l) \<or> (\<exists>j < i. ?T ! j = - l)"
    using A by blast
  from scan [OF ok i pre, of opn] obtain opn1 s1 where
    run1: "analyze_literals ?ls opn s = Inr (opn1, s1)"
    and rel: "step_rel i s opn s1 opn1"
    and seen1: "\<forall>l \<in> set ?ls. lev s l \<noteq> 0 \<longrightarrow> v_seen (var s1 l)"
    by blast
  from rel have st: "static_eq s s1"
    and mono: "\<And>x. v_seen (vtab s x) \<Longrightarrow> v_seen (vtab s1 x)"
    and lsn1: "lowseen s1" and lbf1: "lowbuf s1"
    and sub: "set (clause s) \<subseteq> set (clause s1)"
    and cnt: "opn1 - int (card (pending s1 i)) = opn - int (card (pending s i))"
    using lsn lbf by (simp_all add: step_rel_def)
  have tr1: "trail s1 = ?T" and lv1: "level s1 = level s" and cls1: "clauses s1 = clauses s"
    using st by (simp_all add: static_eq_def)
  have lev1: "lev s1 l = lev s l" for l
    by (rule static_eq_lev [OF st])
  have ok1: "trail_ok s1"
    by (rule static_eq_trail_ok [OF st ok])
  have o1: "opn1 = int (card (pending s1 i))"
    using cnt B by simp
  have pend1: "k \<in> pending s1 i \<longleftrightarrow> k < i \<and> v_seen (var s1 (?T ! k)) \<and> lev s (?T ! k) = level s"
    for k
    by (simp add: pending_def tr1 lv1 lev1)
  have psub: "pending s i \<subseteq> pending s1 i"
    using mono by (auto simp: pending_def tr1 lv1 lev1 var_def)
  have ne: "pending s1 i \<noteq> {}"
    using C
  proof
    assume "1 \<le> opn"
    with B have "pending s i \<noteq> {}" by auto
    with psub show ?thesis by auto
  next
    assume "\<exists>l \<in> set ?ls. lev s l = level s \<and> (\<exists>j < i. ?T ! j = - l)"
    then obtain l j where l: "l \<in> set ?ls" "lev s l = level s" "j < i" "?T ! j = - l"
      by blast
    from l(2) pos have "lev s l \<noteq> 0" by simp
    with seen1 l(1) have "v_seen (var s1 l)" by simp
    then have "v_seen (var s1 (?T ! j))"
      by (simp add: l(4))
    moreover have "lev s (?T ! j) = level s"
      using l(2) by (simp add: l(4))
    ultimately have "j \<in> pending s1 i"
      using l(3) by (simp add: pend1)
    then show ?thesis by auto
  qed
  then have "\<exists>k < i. v_seen (var s1 (trail s1 ! k))"
    by (auto simp: pend1 tr1)
  from find_seen_spec [OF this] obtain k where
    fs: "find_seen s1 i = Some (k, ?T ! k)" and ki: "k < i"
    and seenk: "v_seen (var s1 (?T ! k))"
    and above: "\<And>k'. k < k' \<Longrightarrow> k' < i \<Longrightarrow> \<not> v_seen (var s1 (?T ! k'))"
    by (auto simp: tr1)
  define uip where "uip = ?T ! k"
  have kl: "k < length ?T" using ki i by simp
  have uin: "uip \<in> set ?T"
    unfolding uip_def using kl by simp
  have below: "k' \<le> k" if "k' \<in> pending s1 i" for k'
    using that above [of k'] by (auto simp: pend1 not_less [symmetric])
  have levk: "lev s uip = level s"
  proof -
    from ne obtain j where j: "j \<in> pending s1 i" by auto
    then have jl: "lev s (?T ! j) = level s" by (simp add: pend1)
    from below [OF j] have "j < k \<or> j = k" by auto
    then have "lev s (?T ! j) \<le> lev s (?T ! k)"
      using sorted [OF kl] by auto
    with jl bound [OF uin] show ?thesis
      by (simp add: uip_def)
  qed
  have kin: "k \<in> pending s1 i"
    using ki seenk levk by (simp add: pend1 uip_def)
  have pk: "pending s1 k = pending s1 i - {k}"
  proof -
    have "k' \<in> pending s1 k \<longleftrightarrow> k' \<in> pending s1 i \<and> k' \<noteq> k" for k'
      using below [of k'] ki by (auto simp: pending_def)
    then show ?thesis by auto
  qed
  have ck: "int (card (pending s1 k)) = opn1 - 1"
  proof -
    from kin have "0 < card (pending s1 i)"
      by (auto simp: card_gt_0_iff)
    moreover have "card (pending s1 k) = card (pending s1 i) - 1"
      unfolding pk using kin by simp
    ultimately show ?thesis
      unfolding o1 by simp
  qed
  have J: "clause_true M (clause s1) \<or> (\<exists>k' \<in> pending s1 i. lit_true M (- (?T ! k')))"
    if bk: "backed s M" and res: "resolvent s r i M" for M
  proof -
    from res consider "clause_true M (clause s)"
      | "\<exists>k' \<in> pending s i. lit_true M (- (?T ! k'))"
      | "\<exists>l \<in> set ?ls. \<not> (i < length ?T \<and> l = ?T ! i) \<and> lit_true M l"
      by (auto simp: resolvent_def)
    then show ?thesis
    proof cases
      case 1
      with sub show ?thesis by (auto simp: clause_true_def)
    next
      case 2
      with psub show ?thesis by auto
    next
      case 3
      then obtain l where l: "l \<in> set ?ls" "\<not> (i < length ?T \<and> l = ?T ! i)" "lit_true M l"
        by blast
      with A obtain j where j: "j < i" "?T ! j = - l" by blast
      have jl: "j < length ?T" using j i by simp
      then have tin: "?T ! j \<in> set ?T" by simp
      have l': "l = - (?T ! j)" using j by simp
      have ltrue: "lit_true M (- (?T ! j))"
        using l(3) l' by simp
      have l0: "lev s (?T ! j) \<noteq> 0"
      proof
        assume "lev s (?T ! j) = 0"
        with bk tin have "lit_true M (?T ! j)"
          by (auto simp: backed_def)
        with ltrue nz [OF tin] show False
          by (simp add: lit_true_uminus)
      qed
      then have "lev s l \<noteq> 0" by (simp add: l')
      with seen1 l(1) have "v_seen (var s1 l)" by simp
      then have sj: "v_seen (var s1 (?T ! j))" by (simp add: l')
      show ?thesis
      proof (cases "lev s (?T ! j) = level s")
        case True
        with sj j have "j \<in> pending s1 i" by (simp add: pend1)
        with ltrue show ?thesis by blast
      next
        case False
        with bound [OF tin] have "lev s (?T ! j) < level s" by simp
        with lsn1 sj jl have "- (?T ! j) \<in> set (clause s1)"
          by (simp add: lowseen_def tr1 lv1 lev1)
        with ltrue show ?thesis by (auto simp: clause_true_def)
      qed
    qed
  qed
  show ?case
  proof (cases "opn1 - 1 = 0")
    case True
    have run: "analyze_loop s r opn i = Inr (s1, uip)"
      using run1 fs True by (subst analyze_loop.simps) (simp add: uip_def)
    from ck True have "pending s1 k = {}" by simp
    with pk kin have only: "pending s1 i = {k}" by auto
    have "clause_true M (clause s1) \<or> lit_true M (- uip)"
      if "backed s M \<and> resolvent s r i M" for M
      using J [of M] that only by (auto simp: uip_def)
    with run st lbf1 levk show ?thesis by blast
  next
    case False
    with ck have two: "1 \<le> opn1 - 1"
      by (smt (verit) of_nat_0_le_iff)
    then obtain j where j: "j \<in> pending s1 k"
      using ck by (cases "pending s1 k = {}") auto
    then have jk: "j < k" and jlev: "lev s (?T ! j) = level s"
      by (simp_all add: pending_def tr1 lv1 lev1)
    from ok kl have rk: "case v_reason (var s (?T ! k)) of
           Some r \<Rightarrow> (\<forall>l \<in> set (literals (clauses s r)).
                l = ?T ! k \<or> (\<exists>j \<in> {..<k}. ?T ! j = - l))
         | None \<Rightarrow> lev s (?T ! k) = level s \<longrightarrow> (\<forall>j \<in> {..<k}. lev s (?T ! j) < level s)"
      by (simp add: trail_ok_def)
    have "v_reason (var s uip) \<noteq> None"
    proof
      assume "v_reason (var s uip) = None"
      with rk levk have "\<forall>j \<in> {..<k}. lev s (?T ! j) < level s"
        by (simp add: uip_def)
      with jk have "lev s (?T ! j) < level s"
        by simp
      with jlev show False by simp
    qed
    then obtain r1 where r1: "v_reason (var s uip) = Some r1" by auto
    then have r1': "v_reason (var s1 uip) = Some r1"
      by (simp add: static_eq_reason [OF st])
    from rk r1 have lits1: "\<forall>l \<in> set (literals (clauses s r1)). l = ?T ! k \<or> (\<exists>j < k. ?T ! j = - l)"
      by (auto simp: uip_def)
    have inv1: "loop_inv s1 r1 (opn1 - 1) k"
      unfolding loop_inv_def
      using ok1 kl lits1 seenk ck two lsn1 lbf1 by (auto simp: tr1 cls1)
    have run: "analyze_loop s r opn i = analyze_loop s1 r1 (opn1 - 1) k"
      using run1 fs False r1' by (subst analyze_loop.simps) (simp add: uip_def)
    from "1.IH" [OF run1 refl fs refl False, of r1] r1' inv1
    obtain s' u where rec: "analyze_loop s1 r1 (opn1 - 1) k = Inr (s', u)"
      and st': "static_eq s1 s'" and lb': "lowbuf s'" and lu: "lev s1 u = level s1"
      and sem: "\<And>M. backed s1 M \<and> resolvent s1 r1 k M \<Longrightarrow>
                  clause_true M (clause s') \<or> lit_true M (- u)"
      by (auto simp: uip_def)
    have "clause_true M (clause s') \<or> lit_true M (- u)"
      if m: "backed s M \<and> resolvent s r i M" for M
    proof -
      from m have bk: "backed s M" by simp
      then have bk1: "backed s1 M" by (simp add: static_eq_backed [OF st])
      have "resolvent s1 r1 k M"
      proof -
        from J [of M] m consider "clause_true M (clause s1)"
          | k' where "k' \<in> pending s1 i" "lit_true M (- (?T ! k'))"
          by blast
        then show ?thesis
        proof cases
          case 1
          then show ?thesis by (simp add: resolvent_def)
        next
          case 2
          show ?thesis
          proof (cases "k' = k")
            case False
            with 2 have "k' \<in> pending s1 k" by (simp add: pk)
            with 2 show ?thesis by (auto simp: resolvent_def tr1)
          next
            case True
            with 2 have "\<not> lit_true M uip"
              using nz [OF uin] by (simp add: uip_def lit_true_uminus)
            moreover from bk uin r1 have "clause_true M (literals (clauses s r1))"
              by (auto simp: backed_def)
            ultimately have "\<exists>l \<in> set (literals (clauses s r1)). l \<noteq> uip \<and> lit_true M l"
              by (auto simp: clause_true_def)
            then show ?thesis
              by (auto simp: resolvent_def tr1 cls1 uip_def)
          qed
        qed
      qed
      with bk1 sem [of M] show ?thesis by simp
    qed
    moreover have "static_eq s s'"
      by (rule static_eq_trans [OF st st'])
    moreover have "lev s u = level s"
      using lu by (simp add: lev1 lv1)
    ultimately show ?thesis
      using run rec lb' by auto
  qed
qed

lemma supported_iff: "supported st c M = (clause_true M (literals (clauses st c)) \<and> backed st M)"
  by (simp add: supported_def)

lemma resolve_clause_ok:
  assumes "redundant (clauses st c) \<and> keepsize (opts st) < size_of (clauses st c) \<and>
       keepglue (opts st) < glue (clauses st c) \<longrightarrow> extended (clauses st c)"
  shows "\<exists>st1. resolve_clause c st = Inr st1 \<and> vtab st1 = vtab st \<and> trail st1 = trail st \<and>
           level st1 = level st \<and> clause st1 = clause st \<and> clauses st1 = clauses st \<and>
           vals st1 = vals st"
  using assms by (auto simp: resolve_clause_def)

lemma derive_correct:
  assumes ready: "analysis_ready st c"
  shows "\<exists>st' uip buf. derive_first_uip_clause c st = Inr (st', uip) \<and> static_eq st st' \<and>
           clause st' = buf @ [- uip] \<and> lev st uip = level st \<and>
           (\<forall>l \<in> set buf. lev st l < level st) \<and>
           (\<forall>M. supported st c M \<longrightarrow> clause_true M (clause st'))"
proof -
  from ready have ok: "trail_ok st"
    and fals: "\<forall>l \<in> set (literals (clauses st c)). - l \<in> set (trail st)"
    and top: "\<exists>l \<in> set (literals (clauses st c)). lev st l = level st"
    and unseen: "\<And>x. \<not> v_seen (vtab st x)" and empty: "clause st = []"
    and ext: "redundant (clauses st c) \<and> keepsize (opts st) < size_of (clauses st c) \<and>
       keepglue (opts st) < glue (clauses st c) \<longrightarrow> extended (clauses st c)"
    unfolding analysis_ready_def by blast+
  from resolve_clause_ok [OF ext] obtain st1 where
    res: "resolve_clause c st = Inr st1" and vt: "vtab st1 = vtab st"
    and tr: "trail st1 = trail st" and lv: "level st1 = level st"
    and cl: "clause st1 = clause st" and cls: "clauses st1 = clauses st"
    and vl: "vals st1 = vals st"
    by blast
  have st: "static_eq st st1"
    by (simp add: static_eq_def vt tr lv cls vl)
  have ok1: "trail_ok st1"
    by (rule static_eq_trail_ok [OF st ok])
  have lev1: "lev st1 l = lev st l" for l
    by (rule static_eq_lev [OF st])
  have nopend: "pending st1 i = {}" for i
    using unseen by (simp add: pending_def var_def vt)
  have onTrail: "\<exists>j < length (trail st). trail st ! j = - l" if "l \<in> set (literals (clauses st c))" for l
    using fals that by (auto simp: in_set_conv_nth)
  have inv: "loop_inv st1 c 0 (length (trail st1))"
    unfolding loop_inv_def
    using ok1 top onTrail unseen empty
    by (auto simp: nopend lowseen_def lowbuf_def var_def vt tr lv cl cls lev1)
  from loop_correct [OF inv] obtain s' uip where
    loop: "analyze_loop st1 c 0 (length (trail st1)) = Inr (s', uip)"
    and st': "static_eq st1 s'" and lb: "lowbuf s'" and lu: "lev st1 uip = level st1"
    and sem: "\<And>M. backed st1 M \<and> resolvent st1 c (length (trail st1)) M \<Longrightarrow>
                clause_true M (clause s') \<or> lit_true M (- uip)"
    by blast
  let ?st' = "s'\<lparr>clause := clause s' @ [- uip]\<rparr>"
  have run: "derive_first_uip_clause c st = Inr (?st', uip)"
    by (simp add: derive_first_uip_clause_def res loop)
  have st'': "static_eq st s'"
    by (rule static_eq_trans [OF st st'])
  then have stf: "static_eq st ?st'"
    by (simp add: static_eq_def)
  have low: "\<forall>l \<in> set (clause s'). lev st l < level st"
    using lb static_eq_lev [OF st''] static_eq_fields(2) [OF st''] by (simp add: lowbuf_def)
  have "clause_true M (clause ?st')" if "supported st c M" for M
  proof -
    from that have "backed st1 M" and "clause_true M (literals (clauses st1 c))"
      by (simp_all add: supported_iff static_eq_backed [OF st] cls)
    then have "backed st1 M \<and> resolvent st1 c (length (trail st1)) M"
      by (auto simp: resolvent_def clause_true_def)
    from sem [OF this] show ?thesis
      by (auto simp: clause_true_def)
  qed
  with run stf low lu show ?thesis
    by (intro exI [where x = ?st'] exI [where x = uip] exI [where x = "clause s'"])
      (simp add: lev1 lv)
qed

text \<open>
  Claim C2.  For a conflict analysed above the root level, in a state as the
  trail manager and the last analysis leave it (\<open>analysis_ready\<close>), the
  derivation of the first UIP clause returns, and the clause in the buffer is
  \<open>buf @ [- uip]\<close>: its last literal, the negated first UIP appended after the
  loop, is assigned at the current level, and every other literal is assigned at
  a level strictly below.
\<close>

theorem first_uip_unique:
  assumes "analysis_ready st c"
  shows "\<exists>st' uip buf. derive_first_uip_clause c st = Inr (st', uip) \<and>
           clause st' = buf @ [- uip] \<and>
           v_level (var st' (- uip)) = level st' \<and>
           (\<forall>l \<in> set buf. v_level (var st' l) < level st')"
proof -
  from derive_correct [OF assms] obtain st' uip buf where
    run: "derive_first_uip_clause c st = Inr (st', uip)" and st: "static_eq st st'"
    and cl: "clause st' = buf @ [- uip]" and lu: "lev st uip = level st"
    and low: "\<forall>l \<in> set buf. lev st l < level st"
    by blast
  have "lev st' l = lev st l" for l
    by (rule static_eq_lev [OF st])
  moreover have "level st' = level st"
    by (rule static_eq_fields [OF st])
  ultimately have "v_level (var st' (- uip)) = level st'"
    and "\<forall>l \<in> set buf. v_level (var st' l) < level st'"
    using lu low by (simp_all add: lev_def)
  with run cl show ?thesis by blast
qed

theorem first_uip_unique_witness:
  "analysis_ready ex_state 0 \<and>
   (\<exists>buf. derive_first_uip_clause 0 ex_state = Inr (ex_uip, 3) \<and>
      clause ex_uip = buf @ [- 3] \<and> buf = [- 1, - 2] \<and>
      v_level (var ex_uip (- 3)) = level ex_uip \<and>
      v_level (var ex_uip (- 1)) < level ex_uip \<and> v_level (var ex_uip (- 2)) < level ex_uip)"
proof -
  from first_uip_unique [OF ex_ready] obtain st' uip buf where
    run: "derive_first_uip_clause 0 ex_state = Inr (st', uip)"
    and cl: "clause st' = buf @ [- uip]"
    and top: "v_level (var st' (- uip)) = level st'"
    and low: "\<forall>l \<in> set buf. v_level (var st' l) < level st'"
    by blast
  from run ex_derive have eq: "st' = ex_uip" "uip = 3"
    by simp_all
  have "clause ex_uip = [- 1, - 2, - 3]"
    by code_simp
  with cl eq have buf: "buf = [- 1, - 2]"
    by simp
  from low buf eq have "v_level (var ex_uip (- 1)) < level ex_uip"
    and "v_level (var ex_uip (- 2)) < level ex_uip"
    by simp_all
  with ex_ready ex_derive cl top buf eq show ?thesis
    by simp
qed

text \<open>
  Claim C1.  Let the conflict and the reasons of the trail be entailed by the
  formula \<open>F\<close>.  Then the derivation returns and every valuation that satisfies
  \<open>F\<close> and the literals of the trail at level 0 satisfies the first UIP clause
  (the clause buffer with the negated first UIP); so does, all the more, every
  valuation that satisfies \<open>F\<close> and the whole trail.  The proof follows the
  loop: \<open>resolvent\<close> is the clause the loop stands for, and each pass, which
  replaces the current clause by the reason of the pivot, keeps it true under
  every such valuation.
\<close>

theorem learned_clause_implied:
  assumes ready: "analysis_ready st c"
    and conf: "entails F (literals (clauses st c))"
    and reasons: "\<forall>t \<in> set (trail st). \<forall>r. v_reason (var st t) = Some r \<longrightarrow>
                   entails F (literals (clauses st r))"
  shows "\<exists>st' uip. derive_first_uip_clause c st = Inr (st', uip) \<and>
           (\<forall>M. (\<forall>D \<in> set F. clause_true M D) \<and>
                 (\<forall>t \<in> set (trail st). lev st t = 0 \<longrightarrow> lit_true M t) \<longrightarrow>
                 clause_true M (clause st')) \<and>
           (\<forall>M. (\<forall>D \<in> set F. clause_true M D) \<and> (\<forall>t \<in> set (trail st). lit_true M t) \<longrightarrow>
                 clause_true M (clause st'))"
proof -
  from derive_correct [OF ready] obtain st' uip where
    run: "derive_first_uip_clause c st = Inr (st', uip)"
    and sem: "\<And>M. supported st c M \<Longrightarrow> clause_true M (clause st')"
    by blast
  have main: "clause_true M (clause st')"
    if m: "\<forall>D \<in> set F. clause_true M D" and u: "\<forall>t \<in> set (trail st). lev st t = 0 \<longrightarrow> lit_true M t"
    for M
  proof -
    from conf m have "clause_true M (literals (clauses st c))"
      by (simp add: entails_def)
    moreover have "backed st M"
      unfolding backed_def
    proof (intro ballI conjI)
      fix t assume t: "t \<in> set (trail st)"
      show "case v_reason (var st t) of Some r \<Rightarrow> clause_true M (literals (clauses st r))
           | None \<Rightarrow> True"
        using reasons t m by (auto simp: entails_def split: option.splits)
      show "lev st t = 0 \<longrightarrow> lit_true M t"
        using u t by simp
    qed
    ultimately show ?thesis
      by (intro sem) (simp add: supported_iff)
  qed
  then have "\<forall>M. (\<forall>D \<in> set F. clause_true M D) \<and> (\<forall>t \<in> set (trail st). lit_true M t) \<longrightarrow>
                 clause_true M (clause st')"
    by blast
  with run main show ?thesis by blast
qed

theorem learned_clause_implied_witness:
  "analysis_ready ex_state 0 \<and>
   entails [[- 4, - 3], [4, - 1, - 2, - 3]] (literals (clauses ex_state 0)) \<and>
   entails [[- 4, - 3], [4, - 1, - 2, - 3]] (literals (clauses ex_state 1)) \<and>
   v_reason (var ex_state 4) = Some 1 \<and>
   derive_first_uip_clause 0 ex_state = Inr (ex_uip, 3) \<and>
   clause ex_uip = [- 1, - 2, - 3] \<and>
   clause_true (\<lambda>v. v = 4) [- 4, - 3] \<and> clause_true (\<lambda>v. v = 4) [4, - 1, - 2, - 3] \<and>
   clause_true (\<lambda>v. v = 4) (clause ex_uip)"
proof -
  let ?F = "[[- 4, - 3], [4, - 1, - 2, - 3 :: int]]"
  have c0: "literals (clauses ex_state 0) = [- 4, - 3]"
    and c1: "literals (clauses ex_state 1) = [4, - 1, - 2, - 3]"
    by (simp_all add: ex_defs)
  have e0: "entails ?F (literals (clauses ex_state 0))"
    and e1: "entails ?F (literals (clauses ex_state 1))"
    unfolding c0 c1 by (simp_all add: entails_def)
  have rs: "v_reason (var ex_state 4) = Some 1"
    by (simp add: var_def vidx_def ex_defs)
  have reasons: "\<forall>t \<in> set (trail ex_state). \<forall>r. v_reason (var ex_state t) = Some r \<longrightarrow>
      entails ?F (literals (clauses ex_state r))"
    using e1 by (simp add: var_def vidx_def ex_defs)
  have m: "\<forall>D \<in> set ?F. clause_true (\<lambda>v. v = 4) D"
    by (simp add: clause_true_def lit_true_def vidx_def)
  have u: "\<forall>t \<in> set (trail ex_state). lev ex_state t = 0 \<longrightarrow> lit_true (\<lambda>v. v = 4) t"
    by (simp add: lev_def var_def vidx_def ex_defs)
  from learned_clause_implied [OF ex_ready e0 reasons] obtain st' uip where
    run: "derive_first_uip_clause 0 ex_state = Inr (st', uip)"
    and sem: "\<forall>M. (\<forall>D \<in> set ?F. clause_true M D) \<and>
                 (\<forall>t \<in> set (trail ex_state). lev ex_state t = 0 \<longrightarrow> lit_true M t) \<longrightarrow>
                 clause_true M (clause st')"
    by blast
  from run ex_derive have eq: "st' = ex_uip"
    by simp
  from sem m u have "clause_true (\<lambda>v. v = 4) (clause ex_uip)"
    unfolding eq by blast
  moreover have "clause ex_uip = [- 1, - 2, - 3]"
    by code_simp
  ultimately show ?thesis
    using ex_ready e0 e1 rs ex_derive m by simp
qed

section \<open>Rounding and the rescaling of the scores\<close>

text \<open>
  Facts about the model of the doubles: rounding is monotone, and a number
  between two neighbouring multiples of the unit in the last place is rounded to
  the nearer one.
\<close>

lemma round_even_int: "round_even (of_int n) = n"
  by (simp add: round_even_def)

lemma round_even_range: "\<lfloor>y\<rfloor> \<le> round_even y \<and> round_even y \<le> \<lfloor>y\<rfloor> + 1"
  by (simp add: round_even_def Let_def)

lemma round_even_mono:
  assumes "a \<le> b"
  shows "round_even a \<le> round_even b"
proof (cases "\<lfloor>a\<rfloor> = \<lfloor>b\<rfloor>")
  case True
  with assms show ?thesis
    by (auto simp: round_even_def Let_def)
next
  case False
  from assms have "\<lfloor>a\<rfloor> \<le> \<lfloor>b\<rfloor>" by (rule floor_mono)
  with False have "\<lfloor>a\<rfloor> + 1 \<le> \<lfloor>b\<rfloor>" by simp
  with round_even_range [of a] round_even_range [of b] show ?thesis
    by linarith
qed

lemma round_even_ge: "of_int n \<le> y \<Longrightarrow> n \<le> round_even y"
  using round_even_mono [of "of_int n" y] by (simp add: round_even_int)

lemma round_even_le: "y \<le> of_int n \<Longrightarrow> round_even y \<le> n"
  using round_even_mono [of y "of_int n"] by (simp add: round_even_int)

lemma expo_bounds:
  assumes "0 < x"
  shows "power_int 2 (expo x) \<le> x \<and> x < power_int 2 (expo x + 1)"
proof (cases "1 \<le> x")
  case True
  define m where "m = \<lfloor>x\<rfloor>"
  from True have m: "0 < m" unfolding m_def by simp
  from bitlen_bounds [OF m] have b: "2 ^ nat (bitlen m - 1) \<le> m" "m < 2 ^ nat (bitlen m)"
    by simp_all
  from m have bl: "1 \<le> bitlen m"
    using bitlen_eq_zero_iff [of m] bitlen_nonneg [of m] by linarith
  have e: "expo x = bitlen m - 1"
    using True by (simp add: expo_def m_def)
  have "(of_int (2 ^ nat (bitlen m - 1)) :: rat) \<le> of_int m"
    using b(1) by (simp only: of_int_le_iff)
  also have "\<dots> \<le> x" unfolding m_def by simp
  finally have lo: "power_int 2 (expo x) \<le> x"
    using bl by (simp add: e power_int_def)
  have "m + 1 \<le> 2 ^ nat (bitlen m)" using b(2) by simp
  then have "(of_int (m + 1) :: rat) \<le> of_int (2 ^ nat (bitlen m))"
    by (simp only: of_int_le_iff)
  moreover have "x < of_int (m + 1)" unfolding m_def by linarith
  ultimately have "x < of_int (2 ^ nat (bitlen m))" by linarith
  then have hi: "x < power_int 2 (expo x + 1)"
    using bl by (simp add: e power_int_def)
  from lo hi show ?thesis ..
next
  case False
  with assms have x: "0 < x" "x < 1" by simp_all
  define y where "y = 1 / x"
  from x have y: "1 < y" unfolding y_def by simp
  define c where "c = \<lceil>y\<rceil>"
  from y have c: "2 \<le> c" unfolding c_def by linarith
  have cy: "of_int (c - 1) < y" "y \<le> of_int c"
    unfolding c_def by linarith+
  define n where "n = bitlen (c - 1)"
  from c have c1: "0 < c - 1" by simp
  from bitlen_bounds [OF c1] have b: "2 ^ nat (n - 1) \<le> c - 1" "c - 1 < 2 ^ nat n"
    by (simp_all add: n_def)
  from c1 have bl: "1 \<le> n"
    using bitlen_eq_zero_iff [of "c - 1"] bitlen_nonneg [of "c - 1"] unfolding n_def by linarith
  have e: "expo x = - n"
    using False by (simp add: expo_def n_def c_def y_def)
  have "c \<le> 2 ^ nat n" using b(2) by simp
  then have "(of_int c :: rat) \<le> of_int (2 ^ nat n)" by (simp only: of_int_le_iff)
  then have "(of_int c :: rat) \<le> 2 ^ nat n" by simp
  with cy(2) have "y \<le> 2 ^ nat n" by linarith
  then have "1 / x \<le> 2 ^ nat n" by (simp add: y_def)
  with x(1) have "1 \<le> 2 ^ nat n * x"
    by (simp add: field_simps)
  then have "1 / 2 ^ nat n \<le> x"
    by (simp add: field_simps)
  then have lo: "power_int 2 (expo x) \<le> x"
    using bl by (simp add: e power_int_def field_simps)
  have "(of_int (2 ^ nat (n - 1)) :: rat) \<le> of_int (c - 1)"
    using b(1) by (simp only: of_int_le_iff)
  then have "(2::rat) ^ nat (n - 1) \<le> of_int (c - 1)" by simp
  with cy(1) have "2 ^ nat (n - 1) < y" by linarith
  then have "2 ^ nat (n - 1) < 1 / x" by (simp add: y_def)
  with x(1) have "2 ^ nat (n - 1) * x < 1"
    by (simp add: field_simps)
  then have "x < 1 / 2 ^ nat (n - 1)"
    by (simp add: field_simps)
  moreover have "power_int (2::rat) (- n + 1) = 1 / 2 ^ nat (n - 1)"
    using bl by (cases "n = 1") (simp_all add: power_int_def field_simps)
  ultimately have hi: "x < power_int 2 (expo x + 1)"
    by (simp add: e)
  from lo hi show ?thesis ..
qed


lemma expo_mono:
  assumes "0 < x" and "x \<le> y"
  shows "expo x \<le> expo y"
proof -
  from assms have y: "0 < y" by simp
  from expo_bounds [OF assms(1)] expo_bounds [OF y] assms(2)
  have lt: "power_int (2::rat) (expo x) < power_int 2 (expo y + 1)"
    by linarith
  have "expo x < expo y + 1"
  proof (rule ccontr)
    assume "\<not> expo x < expo y + 1"
    then have "expo y + 1 \<le> expo x" by simp
    then have "power_int (2::rat) (expo y + 1) \<le> power_int 2 (expo x)"
      by (simp add: power_int_increasing)
    with lt show False by simp
  qed
  then show ?thesis by simp
qed


lemma expo_unique:
  assumes "power_int 2 e \<le> x" and "x < power_int 2 (e + 1)"
  shows "expo x = e"
proof -
  have "(0::rat) < power_int 2 e" by (simp add: zero_less_power_int)
  with assms(1) have x: "0 < x" by linarith
  from expo_bounds [OF x] assms
  have a: "power_int (2::rat) (expo x) < power_int 2 (e + 1)"
    and b: "power_int (2::rat) e < power_int 2 (expo x + 1)"
    by linarith+
  have "expo x < e + 1"
  proof (rule ccontr)
    assume "\<not> expo x < e + 1"
    then have "power_int (2::rat) (e + 1) \<le> power_int 2 (expo x)"
      by (simp add: power_int_increasing)
    with a show False by simp
  qed
  moreover have "e < expo x + 1"
  proof (rule ccontr)
    assume "\<not> e < expo x + 1"
    then have "power_int (2::rat) (expo x + 1) \<le> power_int 2 e"
      by (simp add: power_int_increasing)
    with b show False by simp
  qed
  ultimately show ?thesis by simp
qed

lemma round_double_eq:
  assumes "power_int 2 e \<le> x" and "x < power_int 2 (e + 1)" and "- 1022 \<le> e"
  shows "round_double x =
    of_int (round_even (x / power_int 2 (e - 52))) * power_int 2 (e - 52)"
proof -
  have "(0::rat) < power_int 2 e" by (simp add: zero_less_power_int)
  with assms(1) have x: "0 < x" by linarith
  from expo_unique [OF assms(1,2)] assms(3) have "max (expo x) (- 1022) = e"
    by simp
  with x show ?thesis
    by (simp add: round_double_def round_pos_def Let_def)
qed

lemma ulp_scale:
  "power_int (2::rat) (e + 1) = of_int (2 ^ 53) * power_int 2 (e - 52)"
  "power_int (2::rat) e = of_int (2 ^ 52) * power_int 2 (e - 52)"
proof -
  have "power_int (2::rat) (53 + (e - 52)) = power_int 2 53 * power_int 2 (e - 52)"
    by (rule power_int_add) simp
  moreover have "53 + (e - 52) = e + 1" by simp
  ultimately show "power_int (2::rat) (e + 1) = of_int (2 ^ 53) * power_int 2 (e - 52)"
    by simp
  have "power_int (2::rat) (52 + (e - 52)) = power_int 2 52 * power_int 2 (e - 52)"
    by (rule power_int_add) simp
  moreover have "52 + (e - 52) = e" by simp
  ultimately show "power_int (2::rat) e = of_int (2 ^ 52) * power_int 2 (e - 52)"
    by simp
qed

lemma round_pos_upper:
  assumes "0 < x"
  shows "round_pos x \<le> power_int 2 (max (expo x) (- 1022) + 1)"
proof -
  define e where "e = max (expo x) (- 1022)"
  define u :: rat where "u = power_int 2 (e - 52)"
  have u: "0 < u" unfolding u_def by (simp add: zero_less_power_int)
  have "expo x + 1 \<le> e + 1" by (simp add: e_def)
  then have "power_int (2::rat) (expo x + 1) \<le> power_int 2 (e + 1)"
    by (simp add: power_int_increasing)
  with expo_bounds [OF assms] have "x \<le> of_int (2 ^ 53) * u"
    unfolding ulp_scale(1) [of e] u_def by linarith
  with u have q: "x / u \<le> of_int (2 ^ 53)"
    by (simp add: field_simps)
  have "round_even (x / u) \<le> 2 ^ 53"
    using round_even_le [OF q] by simp
  then have "(of_int (round_even (x / u)) :: rat) \<le> of_int (2 ^ 53)"
    by (simp only: of_int_le_iff)
  with u have "of_int (round_even (x / u)) * u \<le> of_int (2 ^ 53) * u"
    by (simp only: mult_le_cancel_right_pos)
  then show ?thesis
    unfolding ulp_scale(1) [of "max (expo x) (- 1022)"]
    by (simp add: round_pos_def u_def e_def Let_def)
qed

lemma round_pos_lower:
  assumes "0 < x" and "- 1022 \<le> expo x"
  shows "power_int 2 (expo x) \<le> round_pos x"
proof -
  define u :: rat where "u = power_int 2 (expo x - 52)"
  have u: "0 < u" unfolding u_def by (simp add: zero_less_power_int)
  from assms(2) have m: "max (expo x) (- 1022) = expo x" by simp
  from expo_bounds [OF assms(1)] have "of_int (2 ^ 52) * u \<le> x"
    unfolding ulp_scale(2) [of "expo x"] u_def by simp
  with u have q: "of_int (2 ^ 52) \<le> x / u"
    by (simp add: field_simps)
  have "2 ^ 52 \<le> round_even (x / u)"
    using round_even_ge [OF q] by simp
  then have "(of_int (2 ^ 52) :: rat) \<le> of_int (round_even (x / u))"
    by (simp only: of_int_le_iff)
  with u have "of_int (2 ^ 52) * u \<le> of_int (round_even (x / u)) * u"
    by (simp only: mult_le_cancel_right_pos)
  then show ?thesis
    unfolding ulp_scale(2) [of "expo x"]
    by (simp add: round_pos_def m u_def Let_def)
qed

lemma round_pos_nonneg:
  assumes "0 < x"
  shows "0 \<le> round_pos x"
proof -
  define u :: rat where "u = power_int 2 (max (expo x) (- 1022) - 52)"
  have u: "0 < u" unfolding u_def by (simp add: zero_less_power_int)
  with assms have "of_int 0 \<le> x / u" by simp
  from round_even_ge [OF this] have "(0::rat) \<le> of_int (round_even (x / u))"
    by simp
  with u show ?thesis
    by (simp add: round_pos_def u_def Let_def)
qed

lemma round_pos_mono:
  assumes "0 < x" and "x \<le> y"
  shows "round_pos x \<le> round_pos y"
proof (cases "max (expo x) (- 1022) = max (expo y) (- 1022)")
  case True
  define u :: rat where "u = power_int 2 (max (expo y) (- 1022) - 52)"
  have u: "0 < u" unfolding u_def by (simp add: zero_less_power_int)
  with assms(2) have "x / u \<le> y / u"
    by (simp add: divide_right_mono)
  then have "round_even (x / u) \<le> round_even (y / u)"
    by (rule round_even_mono)
  then have "(of_int (round_even (x / u)) :: rat) \<le> of_int (round_even (y / u))"
    by (simp only: of_int_le_iff)
  with u have "of_int (round_even (x / u)) * u \<le> of_int (round_even (y / u)) * u"
    by (simp only: mult_le_cancel_right_pos)
  then show ?thesis
    by (simp add: round_pos_def Let_def True u_def)
next
  case False
  from assms have y: "0 < y" by simp
  from expo_mono [OF assms] False
  have lt: "max (expo x) (- 1022) + 1 \<le> expo y" and n: "- 1022 \<le> expo y"
    by simp_all
  from lt have "power_int (2::rat) (max (expo x) (- 1022) + 1) \<le> power_int 2 (expo y)"
    by (simp add: power_int_increasing)
  with round_pos_upper [OF assms(1)] round_pos_lower [OF y n] show ?thesis
    by linarith
qed

lemma round_double_mono:
  assumes "x \<le> y"
  shows "round_double x \<le> round_double y"
proof -
  consider "0 < x" | "x = 0" | "x < 0" "0 < y" | "x < 0" "y = 0" | "x < 0" "y < 0"
    by linarith
  then show ?thesis
  proof cases
    case 1
    with assms round_pos_mono [of x y] show ?thesis
      by (simp add: round_double_def)
  next
    case 2
    with assms round_pos_nonneg [of y] show ?thesis
      by (cases "y = 0") (simp_all add: round_double_def)
  next
    case 3
    with round_pos_nonneg [of y] round_pos_nonneg [of "- x"] show ?thesis
      by (simp add: round_double_def)
  next
    case 4
    with round_pos_nonneg [of "- x"] show ?thesis
      by (simp add: round_double_def)
  next
    case 5
    with assms round_pos_mono [of "- y" "- x"] show ?thesis
      by (simp add: round_double_def)
  qed
qed

lemma round_even_eq:
  assumes "of_int n - 1 / 2 < y" and "y < of_int n + 1 / 2"
  shows "round_even y = n"
proof (cases "of_int n \<le> y")
  case True
  with assms(2) have "\<lfloor>y\<rfloor> = n" by linarith
  with assms(2) show ?thesis
    by (simp add: round_even_def Let_def)
next
  case False
  with assms(1) have "\<lfloor>y\<rfloor> = n - 1" by linarith
  with assms(1) show ?thesis
    by (simp add: round_even_def Let_def)
qed

lemma round_double_val:
  assumes "power_int 2 e \<le> x" and "x < power_int 2 (e + 1)" and "- 1022 \<le> e"
    and "(of_int n - 1 / 2) * power_int 2 (e - 52) < x"
    and "x < (of_int n + 1 / 2) * power_int 2 (e - 52)"
  shows "round_double x = of_int n * power_int 2 (e - 52)"
proof -
  define u :: rat where "u = power_int 2 (e - 52)"
  have u: "0 < u" unfolding u_def by (simp add: zero_less_power_int)
  with assms(4,5) have "of_int n - 1 / 2 < x / u" "x / u < of_int n + 1 / 2"
    unfolding u_def [symmetric] by (simp_all add: field_simps)
  then have "round_even (x / u) = n"
    by (rule round_even_eq)
  with round_double_eq [OF assms(1-3)] show ?thesis
    by (simp add: u_def)
qed

lemma double_div_mono:
  assumes "0 < s" and "\<not> d_less double_arith y x"
  shows "\<not> d_less double_arith (d_div double_arith y s) (d_div double_arith x s)"
proof -
  from assms(2) have "x \<le> y" by (simp add: double_arith_def)
  with assms(1) have "x / s \<le> y / s" by (simp add: divide_right_mono)
  then have "round_double (x / s) \<le> round_double (y / s)"
    by (rule round_double_mono)
  then show ?thesis by (simp add: double_arith_def)
qed

lemma double_1e100:
  "round_double (10 ^ 100) =
     10000000000000000159028911097599180468360808563945281389781327557747838772170381060813469985856815104"
  using round_double_val [of 332 "10 ^ 100"
      "10000000000000000159028911097599180468360808563945281389781327557747838772170381060813469985856815104 div 2 ^ 280"]
  by simp

lemma ex_round_doubles:
  "round_double 15 = 15" "round_double (15 + 1 / 2 ^ 49) = 15 + 1 / 2 ^ 49"
  "round_double (5132595897081379 * 2 ^ 280) = 5132595897081379 * 2 ^ 280"
  "round_double (4278419646001971 / 2 ^ 52) = 4278419646001971 / 2 ^ 52"
  using round_double_val [of 3 15 "15 * 2 ^ 49"]
    round_double_val [of 3 "15 + 1 / 2 ^ 49" "15 * 2 ^ 49 + 1"]
    round_double_val [of 332 "5132595897081379 * 2 ^ 280" 5132595897081379]
    round_double_val [of "- 1" "4278419646001971 / 2 ^ 52" 8556839292003942]
  by simp_all

lemma ex_round_quotients:
  "round_double (15 / (5402732523243557 * 2 ^ 280)) = 7038941469568750 / 2 ^ 381"
  "round_double ((15 + 1 / 2 ^ 49) / (5402732523243557 * 2 ^ 280)) = 7038941469568750 / 2 ^ 381"
  using round_double_val [of "- 329" "15 / (5402732523243557 * 2 ^ 280)" 7038941469568750]
    round_double_val [of "- 329" "(15 + 1 / 2 ^ 49) / (5402732523243557 * 2 ^ 280)"
      7038941469568750]
  by simp_all

lemma ex_round_decay:
  "d_div double_arith (scinc ex_round) (decay (opts ex_round)) = 5402732523243557 * 2 ^ 280"
proof -
  have "round_double (5132595897081379 * 2 ^ 280 / (4278419646001971 / 2 ^ 52)) =
      5402732523243557 * 2 ^ 280"
    using round_double_val [of 332 "5132595897081379 * 2 ^ 280 / (4278419646001971 / 2 ^ 52)"
        5402732523243557]
    by simp
  moreover have "d_div double_arith (scinc ex_round) (decay (opts ex_round)) =
      round_double (5132595897081379 * 2 ^ 280 / (4278419646001971 / 2 ^ 52))"
    by (simp add: double_arith_def ex_round_def)
  ultimately show ?thesis
    by (simp only:)
qed

lemma double_gt_1e100:
  "d_gt_1e100 double_arith x \<longleftrightarrow>
     10000000000000000159028911097599180468360808563945281389781327557747838772170381060813469985856815104 < x"
  by (subst double_1e100 [symmetric]) (simp add: double_arith_def)

lemma ex_round_threshold:
  "\<not> d_gt_1e100 double_arith (5132595897081379 * 2 ^ 280)"
  "d_gt_1e100 double_arith (5402732523243557 * 2 ^ 280)"
  by (simp_all add: double_gt_1e100)

lemma ex_round_run:
  "bump_and_clear_seen_variables double_arith ex_round =
     Inr (rescore double_arith ex_round_decayed)"
proof -
  have s: "sort_seen double_arith ex_round = ex_round" "seen ex_round = []"
    by (simp_all add: sort_seen_def ex_round_def)
  have d: "ex_round\<lparr>seen := [],
      scinc := d_div double_arith (scinc ex_round) (decay (opts ex_round))\<rparr> = ex_round_decayed"
    unfolding ex_round_decay by (simp add: ex_round_decayed_def ex_round_def)
  have t: "d_gt_1e100 double_arith (d_div double_arith (scinc ex_round) (decay (opts ex_round)))"
    unfolding ex_round_decay by (rule ex_round_threshold)
  have "bump_and_clear_seen_variables double_arith ex_round =
      Inr (if d_gt_1e100 double_arith (d_div double_arith (scinc ex_round) (decay (opts ex_round)))
           then rescore double_arith (ex_round\<lparr>seen := [],
                  scinc := d_div double_arith (scinc ex_round) (decay (opts ex_round))\<rparr>)
           else ex_round\<lparr>seen := [],
                  scinc := d_div double_arith (scinc ex_round) (decay (opts ex_round))\<rparr>)"
    by (simp add: bump_and_clear_seen_variables_def s Let_def)
  then show ?thesis
    unfolding d using t by (simp only: if_True)
qed

lemma ex_round_rescored:
  "v_score (vtab (rescore double_arith ex_round_decayed) 1) = 7038941469568750 / 2 ^ 381"
  "v_score (vtab (rescore double_arith ex_round_decayed) 2) = 7038941469568750 / 2 ^ 381"
  "scinc (rescore double_arith ex_round_decayed) = 1"
proof -
  have "v_score (vtab (rescore double_arith ex_round_decayed) 1) =
      round_double (15 / (5402732523243557 * 2 ^ 280))"
    and "v_score (vtab (rescore double_arith ex_round_decayed) 2) =
      round_double ((15 + 1 / 2 ^ 49) / (5402732523243557 * 2 ^ 280))"
    by (simp_all add: rescore_def ex_round_decayed_def ex_round_def double_arith_def)
  then show "v_score (vtab (rescore double_arith ex_round_decayed) 1) = 7038941469568750 / 2 ^ 381"
    and "v_score (vtab (rescore double_arith ex_round_decayed) 2) = 7038941469568750 / 2 ^ 381"
    by (simp_all only: ex_round_quotients)
  show "scinc (rescore double_arith ex_round_decayed) = 1"
    by (simp add: rescore_def double_arith_def)
qed

text \<open>
  Claim C8 as stated fails on the order.  The scores are doubles and the division
  \<^verbatim>\<open>v->score /= scinc\<close> rounds its result.  In the example the variables 1 and 2
  have the scores \<open>15\<close> and \<open>15 + 2 ^ - 49\<close>, the first below the second, and
  the increment does not exceed the threshold; scores, increment and decay are
  doubles.  \<open>bump_and_clear_seen_variables\<close> divides the increment by the decay,
  the result exceeds the threshold, and \<open>rescore\<close> divides both scores by it.
  Both quotients are rounded to the same double: after the rescaling the score of
  variable 1 is no longer below the score of variable 2.
\<close>

theorem rescale_strict_order_counterexample:
  "max_var ex_round = 2 \<and>
   round_double (v_score (vtab ex_round 1)) = v_score (vtab ex_round 1) \<and>
   round_double (v_score (vtab ex_round 2)) = v_score (vtab ex_round 2) \<and>
   round_double (scinc ex_round) = scinc ex_round \<and>
   round_double (decay (opts ex_round)) = decay (opts ex_round) \<and>
   \<not> d_gt_1e100 double_arith (scinc ex_round) \<and>
   d_less double_arith (v_score (vtab ex_round 1)) (v_score (vtab ex_round 2)) \<and>
   d_gt_1e100 double_arith (d_div double_arith (scinc ex_round) (decay (opts ex_round))) \<and>
   bump_and_clear_seen_variables double_arith ex_round =
     Inr (rescore double_arith ex_round_decayed) \<and>
   v_score (vtab ex_round_decayed 1) = v_score (vtab ex_round 1) \<and>
   v_score (vtab ex_round_decayed 2) = v_score (vtab ex_round 2) \<and>
   v_score (vtab (rescore double_arith ex_round_decayed) 1) =
     v_score (vtab (rescore double_arith ex_round_decayed) 2) \<and>
   \<not> d_less double_arith (v_score (vtab (rescore double_arith ex_round_decayed) 1))
        (v_score (vtab (rescore double_arith ex_round_decayed) 2))"
proof -
  have v: "max_var ex_round = 2" "v_score (vtab ex_round 1) = 15"
    "v_score (vtab ex_round 2) = 15 + 1 / 2 ^ 49" "scinc ex_round = 5132595897081379 * 2 ^ 280"
    "decay (opts ex_round) = 4278419646001971 / 2 ^ 52"
    "v_score (vtab ex_round_decayed 1) = v_score (vtab ex_round 1)"
    "v_score (vtab ex_round_decayed 2) = v_score (vtab ex_round 2)"
    by (simp_all add: ex_round_def ex_round_decayed_def)
  have r: "round_double (v_score (vtab ex_round 1)) = v_score (vtab ex_round 1)"
    "round_double (v_score (vtab ex_round 2)) = v_score (vtab ex_round 2)"
    "round_double (scinc ex_round) = scinc ex_round"
    "round_double (decay (opts ex_round)) = decay (opts ex_round)"
    by (simp_all only: v ex_round_doubles)
  have t: "\<not> d_gt_1e100 double_arith (scinc ex_round)"
    unfolding v(4) by (rule ex_round_threshold)
  have t2: "d_gt_1e100 double_arith (d_div double_arith (scinc ex_round) (decay (opts ex_round)))"
    unfolding ex_round_decay by (rule ex_round_threshold)
  have l: "d_less double_arith (v_score (vtab ex_round 1)) (v_score (vtab ex_round 2))"
    unfolding v(2,3) by (simp add: double_arith_def)
  have e: "v_score (vtab (rescore double_arith ex_round_decayed) 1) =
      v_score (vtab (rescore double_arith ex_round_decayed) 2)"
    by (simp only: ex_round_rescored)
  then have n: "\<not> d_less double_arith (v_score (vtab (rescore double_arith ex_round_decayed) 1))
        (v_score (vtab (rescore double_arith ex_round_decayed) 2))"
    by (simp add: double_arith_def)
  from v(1,6,7) r t t2 l ex_round_run e n show ?thesis
    by blast
qed

text \<open>
  Claim C8, amended.  \<open>rescore\<close> divides the score of every variable 1 to
  \<^verbatim>\<open>max_var\<close> by \<open>scinc\<close>, leaves the scores of the other records as they
  are and resets \<open>scinc\<close> to 1.  It runs in \<open>bump_and_clear_seen_variables\<close> when \<open>scinc\<close>,
  divided by the decay after the bumps, exceeds the threshold, and in
  \<open>bump_variable\<close> when the score of the bumped variable exceeds the threshold
  after the increment.  The rescaling keeps the non-strict order of the scores
  whenever the division by this \<open>scinc\<close> is monotone, as a division that rounds
  to the nearest double is for a positive \<open>scinc\<close>: when the score of \<open>a\<close> was
  not above the score of \<open>b\<close> before, it is not above it after.  Two different
  scores can become equal.
\<close>

theorem rescale_weak_order:
  "(\<forall>x. v_score (vtab (rescore ar st) x) =
      (if 1 \<le> x \<and> x \<le> max_var st then d_div ar (v_score (vtab st x)) (scinc st)
       else v_score (vtab st x))) \<and>
   scinc (rescore ar st) = d_one ar \<and>
   (\<forall>st2. bump_seen ar (seen (sort_seen ar st)) (sort_seen ar st) = Inr st2 \<longrightarrow>
      bump_and_clear_seen_variables ar st =
        Inr (if d_gt_1e100 ar (d_div ar (scinc st2) (decay (opts st2)))
             then rescore ar (st2\<lparr>seen := [],
                    scinc := d_div ar (scinc st2) (decay (opts st2))\<rparr>)
             else st2\<lparr>seen := [], scinc := d_div ar (scinc st2) (decay (opts st2))\<rparr>)) \<and>
   (\<forall>v. v_next (vtab st v) \<noteq> None \<and>
        d_gt_1e100 ar (d_add ar (v_score (vtab st v)) (scinc st)) \<longrightarrow>
      scinc (bump_variable ar v st) = d_one ar \<and>
      (\<forall>x. v_score (vtab (bump_variable ar v st) x) =
         (if 1 \<le> x \<and> x \<le> max_var st
          then d_div ar (if x = v then d_add ar (v_score (vtab st v)) (scinc st)
                         else v_score (vtab st x)) (scinc st)
          else if x = v then d_add ar (v_score (vtab st v)) (scinc st)
          else v_score (vtab st x)))) \<and>
   ((\<forall>x y. \<not> d_less ar y x \<longrightarrow>
           \<not> d_less ar (d_div ar y (scinc st)) (d_div ar x (scinc st))) \<longrightarrow>
    (\<forall>a b. 1 \<le> a \<and> a \<le> max_var st \<and> 1 \<le> b \<and> b \<le> max_var st \<and>
           \<not> d_less ar (v_score (vtab st b)) (v_score (vtab st a)) \<longrightarrow>
       \<not> d_less ar (v_score (vtab (rescore ar st) b)) (v_score (vtab (rescore ar st) a))))"
proof (intro conjI allI impI)
  fix x
  show "v_score (vtab (rescore ar st) x) =
      (if 1 \<le> x \<and> x \<le> max_var st then d_div ar (v_score (vtab st x)) (scinc st)
       else v_score (vtab st x))"
    by (simp add: rescore_def)
next
  show "scinc (rescore ar st) = d_one ar"
    by (simp add: rescore_def)
next
  fix st2
  assume "bump_seen ar (seen (sort_seen ar st)) (sort_seen ar st) = Inr st2"
  then show "bump_and_clear_seen_variables ar st =
        Inr (if d_gt_1e100 ar (d_div ar (scinc st2) (decay (opts st2)))
             then rescore ar (st2\<lparr>seen := [],
                    scinc := d_div ar (scinc st2) (decay (opts st2))\<rparr>)
             else st2\<lparr>seen := [], scinc := d_div ar (scinc st2) (decay (opts st2))\<rparr>)"
    by (simp add: bump_and_clear_seen_variables_def Let_def)
next
  fix v
  assume a: "v_next (vtab st v) \<noteq> None \<and>
        d_gt_1e100 ar (d_add ar (v_score (vtab st v)) (scinc st))"
  then obtain n where n: "v_next (vtab st v) = Some n"
    by (cases "v_next (vtab st v)") auto
  from a have g: "d_gt_1e100 ar (d_add ar (v_score (vtab st v)) (scinc st))" by simp
  from bump_variable_score(2) [OF n g]
  show "scinc (bump_variable ar v st) = d_one ar"
    by simp
  fix x
  from bump_variable_score(2) [OF n g, of x]
  show "v_score (vtab (bump_variable ar v st) x) =
         (if 1 \<le> x \<and> x \<le> max_var st
          then d_div ar (if x = v then d_add ar (v_score (vtab st v)) (scinc st)
                         else v_score (vtab st x)) (scinc st)
          else if x = v then d_add ar (v_score (vtab st v)) (scinc st)
          else v_score (vtab st x))"
    by (simp add: Let_def)
next
  fix a b
  assume mono: "\<forall>x y. \<not> d_less ar y x \<longrightarrow>
           \<not> d_less ar (d_div ar y (scinc st)) (d_div ar x (scinc st))"
    and ab: "1 \<le> a \<and> a \<le> max_var st \<and> 1 \<le> b \<and> b \<le> max_var st \<and>
           \<not> d_less ar (v_score (vtab st b)) (v_score (vtab st a))"
  from ab mono have "\<not> d_less ar (d_div ar (v_score (vtab st b)) (scinc st))
      (d_div ar (v_score (vtab st a)) (scinc st))"
    by blast
  with ab show "\<not> d_less ar (v_score (vtab (rescore ar st) b)) (v_score (vtab (rescore ar st) a))"
    by (simp add: rescore_def)
qed

theorem rescale_weak_order_witness:
  "bump_seen double_arith (seen (sort_seen double_arith ex_round)) (sort_seen double_arith ex_round)
     = Inr ex_round \<and>
   d_gt_1e100 double_arith (d_div double_arith (scinc ex_round) (decay (opts ex_round))) \<and>
   bump_and_clear_seen_variables double_arith ex_round =
     Inr (rescore double_arith ex_round_decayed) \<and>
   v_score (vtab (rescore double_arith ex_round_decayed) 1) = 7038941469568750 / 2 ^ 381 \<and>
   v_score (vtab (rescore double_arith ex_round_decayed) 2) = 7038941469568750 / 2 ^ 381 \<and>
   v_score (vtab (rescore double_arith ex_round_decayed) 3) = 0 \<and>
   scinc (rescore double_arith ex_round_decayed) = 1 \<and>
   \<not> d_less double_arith (v_score (vtab ex_round_decayed 2)) (v_score (vtab ex_round_decayed 1)) \<and>
   \<not> d_less double_arith (v_score (vtab (rescore double_arith ex_round_decayed) 2))
        (v_score (vtab (rescore double_arith ex_round_decayed) 1)) \<and>
   v_next (vtab ex_near 3) = Some 2 \<and>
   d_gt_1e100 real_arith (d_add real_arith (v_score (vtab ex_near 3)) (scinc ex_near)) \<and>
   scinc (bump_variable real_arith 3 ex_near) = 1 \<and>
   v_score (vtab (bump_variable real_arith 3 ex_near) 3) = 2 \<and>
   v_score (vtab (bump_variable real_arith 3 ex_near) 2) = 1 / 2"
proof -
  note main = rescale_weak_order [of double_arith ex_round_decayed]
  note run = rescale_weak_order [of double_arith ex_round]
  note bump = rescale_weak_order [of real_arith ex_near]
  have s: "bump_seen double_arith (seen (sort_seen double_arith ex_round))
      (sort_seen double_arith ex_round) = Inr ex_round"
    by (simp add: sort_seen_def ex_round_def)
  have t: "d_gt_1e100 double_arith (d_div double_arith (scinc ex_round) (decay (opts ex_round)))"
    unfolding ex_round_decay by (rule ex_round_threshold)
  have d: "ex_round\<lparr>seen := [],
      scinc := d_div double_arith (scinc ex_round) (decay (opts ex_round))\<rparr> = ex_round_decayed"
    unfolding ex_round_decay by (simp add: ex_round_decayed_def ex_round_def)
  from run s have "bump_and_clear_seen_variables double_arith ex_round =
        Inr (if d_gt_1e100 double_arith
                  (d_div double_arith (scinc ex_round) (decay (opts ex_round)))
             then rescore double_arith (ex_round\<lparr>seen := [],
                    scinc := d_div double_arith (scinc ex_round) (decay (opts ex_round))\<rparr>)
             else ex_round\<lparr>seen := [],
                    scinc := d_div double_arith (scinc ex_round) (decay (opts ex_round))\<rparr>)"
    by blast
  then have r: "bump_and_clear_seen_variables double_arith ex_round =
     Inr (rescore double_arith ex_round_decayed)"
    unfolding d using t by (simp only: if_True)
  have v: "max_var ex_round_decayed = 2" "scinc ex_round_decayed = 5402732523243557 * 2 ^ 280"
    "v_score (vtab ex_round_decayed 1) = 15"
    "v_score (vtab ex_round_decayed 2) = 15 + 1 / 2 ^ 49" "v_score (vtab ex_round_decayed 3) = 0"
    by (simp_all add: ex_round_decayed_def ex_round_def)
  from main have sc: "\<And>x. v_score (vtab (rescore double_arith ex_round_decayed) x) =
      (if 1 \<le> x \<and> x \<le> max_var ex_round_decayed
       then d_div double_arith (v_score (vtab ex_round_decayed x)) (scinc ex_round_decayed)
       else v_score (vtab ex_round_decayed x))"
    and one: "scinc (rescore double_arith ex_round_decayed) = d_one double_arith"
    by blast+
  have q: "d_div double_arith 15 (5402732523243557 * 2 ^ 280) = 7038941469568750 / 2 ^ 381"
    "d_div double_arith (15 + 1 / 2 ^ 49) (5402732523243557 * 2 ^ 280) =
       7038941469568750 / 2 ^ 381"
    using ex_round_quotients by (simp_all add: double_arith_def)
  have s1: "v_score (vtab (rescore double_arith ex_round_decayed) 1) = 7038941469568750 / 2 ^ 381"
    using sc [of 1] by (simp only: v q) simp
  have s2: "v_score (vtab (rescore double_arith ex_round_decayed) 2) = 7038941469568750 / 2 ^ 381"
    using sc [of 2] by (simp only: v q) simp
  have s3: "v_score (vtab (rescore double_arith ex_round_decayed) 3) = 0"
    using sc [of 3] by (simp add: v)
  have one': "scinc (rescore double_arith ex_round_decayed) = 1"
    using one by (simp add: double_arith_def)
  have mono: "\<forall>x y. \<not> d_less double_arith y x \<longrightarrow>
      \<not> d_less double_arith (d_div double_arith y (scinc ex_round_decayed))
          (d_div double_arith x (scinc ex_round_decayed))"
    by (intro allI impI double_div_mono) (simp add: v)
  have before: "\<not> d_less double_arith (v_score (vtab ex_round_decayed 2))
      (v_score (vtab ex_round_decayed 1))"
    unfolding v(3,4) by (simp add: double_arith_def)
  from main mono have "\<forall>a b. 1 \<le> a \<and> a \<le> max_var ex_round_decayed \<and>
        1 \<le> b \<and> b \<le> max_var ex_round_decayed \<and>
        \<not> d_less double_arith (v_score (vtab ex_round_decayed b))
            (v_score (vtab ex_round_decayed a)) \<longrightarrow>
        \<not> d_less double_arith (v_score (vtab (rescore double_arith ex_round_decayed) b))
            (v_score (vtab (rescore double_arith ex_round_decayed) a))"
    by blast
  from this [rule_format, of 1 2] before
  have after: "\<not> d_less double_arith (v_score (vtab (rescore double_arith ex_round_decayed) 2))
        (v_score (vtab (rescore double_arith ex_round_decayed) 1))"
    by (simp add: v)
  have n: "v_next (vtab ex_near 3) = Some 2"
    by (simp add: ex_defs2)
  have g: "d_gt_1e100 real_arith (d_add real_arith (v_score (vtab ex_near 3)) (scinc ex_near))"
    by (simp add: ex_defs2)
  from bump n g have b: "scinc (bump_variable real_arith 3 ex_near) = d_one real_arith"
    and bs: "\<And>x. v_score (vtab (bump_variable real_arith 3 ex_near) x) =
         (if 1 \<le> x \<and> x \<le> max_var ex_near
          then d_div real_arith (if x = 3 then d_add real_arith (v_score (vtab ex_near 3))
                   (scinc ex_near) else v_score (vtab ex_near x)) (scinc ex_near)
          else if x = 3 then d_add real_arith (v_score (vtab ex_near 3)) (scinc ex_near)
          else v_score (vtab ex_near x))"
    by auto
  have b1: "scinc (bump_variable real_arith 3 ex_near) = 1"
    using b by (simp add: real_arith_def)
  have b3: "v_score (vtab (bump_variable real_arith 3 ex_near) 3) = 2"
    using bs [of 3] by (simp add: ex_defs2)
  have b2: "v_score (vtab (bump_variable real_arith 3 ex_near) 2) = 1 / 2"
    using bs [of 2] by (simp add: ex_defs2)
  from s t r s1 s2 s3 one' before after n g b1 b3 b2 show ?thesis
    by blast
qed

section \<open>Further properties\<close>

lemma stamp_resolved_other:
  "c \<notin> set cs \<Longrightarrow> clauses (stamp_resolved cs st) c = clauses st c"
  by (induction cs arbitrary: st) (auto simp: Let_def)

lemma stamp_resolved_counter:
  "s_resolved (stats (stamp_resolved cs st)) = s_resolved (stats st) + int (length cs)"
  by (induction cs arbitrary: st) (auto simp: Let_def)

lemma stamp_resolved_nth:
  "distinct cs \<Longrightarrow> i < length cs \<Longrightarrow>
   c_resolved (clauses (stamp_resolved cs st) (cs ! i)) = s_resolved (stats st) + int i + 1"
proof (induction cs arbitrary: st i)
  case Nil
  then show ?case by simp
next
  case (Cons c cs)
  let ?st1 = "st\<lparr>stats := (stats st)\<lparr>s_resolved := s_resolved (stats st) + 1\<rparr>\<rparr>"
  let ?st2 = "?st1\<lparr>clauses := (clauses ?st1)
                   (c := (clauses ?st1 c)\<lparr>c_resolved := s_resolved (stats ?st1)\<rparr>)\<rparr>"
  have step: "stamp_resolved (c # cs) st = stamp_resolved cs ?st2"
    by (simp add: Let_def)
  show ?case
  proof (cases i)
    case 0
    from Cons.prems have "c \<notin> set cs" by simp
    from stamp_resolved_other [OF this, of ?st2] 0 show ?thesis
      unfolding step by simp
  next
    case (Suc j)
    with Cons.prems have "distinct cs" "j < length cs" by simp_all
    from Cons.IH [OF this, of ?st2] Suc show ?thesis
      unfolding step by simp
  qed
qed

lemma stamp_resolved_frame:
  "resolved (stamp_resolved cs st) = resolved st"
  by (induction cs arbitrary: st) (auto simp: Let_def)

text \<open>
  The stamps of \<open>bump_resolved_clauses\<close>.  When the collected clauses are
  distinct, they are sorted by their old stamps, ascending, and the clause at
  position \<open>i\<close> of the sorted list gets the stamp \<open>stats.resolved + i + 1\<close>: the
  new stamps grow strictly along the list and lie above the old counter.  The
  other clauses are unchanged, the counter moves by the number of clauses, and
  the list is empty afterwards.
\<close>

theorem bump_resolved_clauses_stamps:
  assumes "distinct (resolved st)"
  shows "\<exists>cs. cs = sort_by (resolved_earlier st) (resolved st) \<and>
           mset cs = mset (resolved st) \<and>
           sorted_wrt (\<lambda>a b. c_resolved (clauses st a) \<le> c_resolved (clauses st b)) cs \<and>
           (\<forall>i < length cs.
              c_resolved (clauses (bump_resolved_clauses st) (cs ! i)) =
                s_resolved (stats st) + int i + 1) \<and>
           (\<forall>c. c \<notin> set cs \<longrightarrow> clauses (bump_resolved_clauses st) c = clauses st c) \<and>
           s_resolved (stats (bump_resolved_clauses st)) =
             s_resolved (stats st) + int (length cs) \<and>
           resolved (bump_resolved_clauses st) = []"
proof -
  define cs where "cs = sort_by (resolved_earlier st) (resolved st)"
  let ?st1 = "st\<lparr>resolved := cs\<rparr>"
  have run: "bump_resolved_clauses st = (stamp_resolved cs ?st1)\<lparr>resolved := []\<rparr>"
    by (simp add: bump_resolved_clauses_def cs_def Let_def)
  have ms: "mset cs = mset (resolved st)"
    by (simp add: cs_def mset_sort_by)
  then have d: "distinct cs"
    using assms by (metis mset_eq_imp_distinct_iff)
  have "resolved_earlier st = (\<lambda>a b. c_resolved (clauses st a) < c_resolved (clauses st b))"
    by (simp add: resolved_earlier_def fun_eq_iff)
  then have srt: "sorted_wrt (\<lambda>a b. c_resolved (clauses st a) \<le> c_resolved (clauses st b)) cs"
    unfolding cs_def
    using sorted_sort_by_asc [of "\<lambda>a. c_resolved (clauses st a)" "resolved st"] by simp
  have nth: "\<forall>i < length cs. c_resolved (clauses (bump_resolved_clauses st) (cs ! i)) =
      s_resolved (stats st) + int i + 1"
    using stamp_resolved_nth [OF d, of _ ?st1] by (simp add: run)
  have other: "\<forall>c. c \<notin> set cs \<longrightarrow> clauses (bump_resolved_clauses st) c = clauses st c"
    using stamp_resolved_other [of _ cs ?st1] by (simp add: run)
  have cnt: "s_resolved (stats (bump_resolved_clauses st)) = s_resolved (stats st) + int (length cs)"
    using stamp_resolved_counter [of cs ?st1] by (simp add: run)
  have "resolved (bump_resolved_clauses st) = []"
    by (simp add: run)
  with ms srt nth other cnt show ?thesis
    unfolding cs_def by blast
qed

theorem bump_resolved_clauses_stamps_witness:
  "distinct (resolved ex_stamps) \<and>
   sort_by (resolved_earlier ex_stamps) (resolved ex_stamps) = [0, 1] \<and>
   c_resolved (clauses (bump_resolved_clauses ex_stamps) 0) = 6 \<and>
   c_resolved (clauses (bump_resolved_clauses ex_stamps) 1) = 7 \<and>
   s_resolved (stats (bump_resolved_clauses ex_stamps)) = 7 \<and>
   resolved (bump_resolved_clauses ex_stamps) = []"
proof -
  have d: "distinct (resolved ex_stamps)"
    by (simp add: ex_stamps_def)
  have s: "sort_by (resolved_earlier ex_stamps) (resolved ex_stamps) = [0, 1]"
    by code_simp
  have c: "s_resolved (stats ex_stamps) = 5"
    by (simp add: ex_stamps_def ex_defs)
  from bump_resolved_clauses_stamps [OF d] have
    nth: "\<forall>i < length [0, 1 :: nat].
       c_resolved (clauses (bump_resolved_clauses ex_stamps) ([0, 1] ! i)) = 5 + int i + 1"
    and cnt: "s_resolved (stats (bump_resolved_clauses ex_stamps)) = 5 + int (length [0, 1 :: nat])"
    and emp: "resolved (bump_resolved_clauses ex_stamps) = []"
    unfolding s c by blast+
  from nth [rule_format, of 0] nth [rule_format, of 1]
  have "c_resolved (clauses (bump_resolved_clauses ex_stamps) ([0, 1] ! 0)) = 5 + int 0 + 1"
    and "c_resolved (clauses (bump_resolved_clauses ex_stamps) ([0, 1] ! 1)) = 5 + int 1 + 1"
    by simp_all
  with d s cnt emp show ?thesis
    by simp
qed

lemma clear_level_list_frame:
  "seen (clear_level_list ex is st) = seen st" "clause (clear_level_list ex is st) = clause st"
  "conflict (clear_level_list ex is st) = conflict st"
  by (induction "is" arbitrary: st) simp_all

text \<open>
  When \<open>analyze\<close> returns, the conflict is reset; above the root level the list
  of seen literals, the list of levels and the clause buffer are empty, whatever
  the collaborators do.
\<close>

theorem analyze_buffers_clean:
  assumes "analyze ex ar st = Inr st'"
  shows "conflict st' = None \<and>
         (level st \<noteq> 0 \<longrightarrow> seen st' = [] \<and> levels st' = [] \<and> clause st' = [])"
proof (cases "level st = 0")
  case True
  with assms show ?thesis
    by (auto simp: analyze_def split: option.splits sum.splits)
next
  case False
  from assms False obtain uip d j s where fin: "analyze_finish ex ar uip d j s = Inr st'"
    by (auto simp: analyze_def Let_def split: option.splits sum.splits prod.splits)
  then obtain s3 where
    b: "bump_and_clear_seen_variables ar
          (assign ex (- uip) d (backtrack ex j
             (s\<lparr>jump_avg := update_avg ex ''jump_avg'' (jump_avg s) j\<rparr>))) = Inr s3"
    and st': "st' = (clear_levels ex (s3\<lparr>clause := []\<rparr>))\<lparr>conflict := None\<rparr>"
    by (auto simp: analyze_finish_def analyze_cleanup_def Let_def split: sum.splits)
  from b have "seen s3 = []"
    by (auto simp: bump_and_clear_seen_variables_def Let_def rescore_def split: sum.splits if_splits)
  then show ?thesis
    by (simp add: st' clear_levels_def clear_level_list_frame)
qed

theorem analyze_buffers_clean_witness:
  "level ex_state \<noteq> 0 \<and>
   (\<exists>st'. analyze ex_ext real_arith ex_state = Inr st' \<and> conflict st' = None \<and>
      seen st' = [] \<and> levels st' = [] \<and> clause st' = [])"
proof -
  have "\<not> isl (analyze ex_ext real_arith ex_state)"
    by code_simp
  then obtain st' where run: "analyze ex_ext real_arith ex_state = Inr st'"
    by (cases "analyze ex_ext real_arith ex_state") auto
  have "level ex_state \<noteq> 0"
    by (simp add: ex_defs)
  with analyze_buffers_clean [OF run] run show ?thesis
    by blast
qed

text \<open>
  After \<open>bump_and_clear_seen_variables\<close> the increment \<open>scinc\<close> does not exceed
  the threshold, or it has just been reset to 1.
\<close>

theorem scinc_bounded:
  assumes "bump_and_clear_seen_variables ar st = Inr st'"
  shows "\<not> d_gt_1e100 ar (scinc st') \<or> scinc st' = d_one ar"
  using assms
  by (auto simp: bump_and_clear_seen_variables_def Let_def rescore_def split: sum.splits if_splits)


theorem scinc_bounded_witness:
  "(\<exists>st'. bump_and_clear_seen_variables real_arith ex_uip = Inr st' \<and> scinc st' = 20 / 19 \<and>
      \<not> d_gt_1e100 real_arith (scinc st'))"
proof -
  have "\<not> isl (bump_and_clear_seen_variables real_arith ex_uip)"
    by code_simp
  then obtain st' where run: "bump_and_clear_seen_variables real_arith ex_uip = Inr st'"
    by (cases "bump_and_clear_seen_variables real_arith ex_uip") auto
  have "scinc (projr (bump_and_clear_seen_variables real_arith ex_uip)) = 20 / 19"
    by code_simp
  with run have v: "scinc st' = 20 / 19"
    by simp
  then have "scinc st' \<noteq> d_one real_arith"
    by (simp add: real_arith_def)
  with scinc_bounded [OF run] have "\<not> d_gt_1e100 real_arith (scinc st')"
    by simp
  with run v show ?thesis
    by blast
qed

text \<open>
  \<open>rescore\<close> divides the scores of the variables 1 to \<^verbatim>\<open>max_var\<close> by the same
  \<open>scinc\<close>.  It keeps the order of two of these scores whenever the division by
  this \<open>scinc\<close> is strictly monotone for the comparison of the scores, as it is
  over the real numbers for a positive \<open>scinc\<close>.
\<close>

theorem rescore_order:
  assumes "\<forall>x y. d_less ar x y \<longrightarrow> d_less ar (d_div ar x (scinc st)) (d_div ar y (scinc st))"
    and "1 \<le> a \<and> a \<le> max_var st" and "1 \<le> b \<and> b \<le> max_var st"
    and "d_less ar (v_score (vtab st a)) (v_score (vtab st b))"
  shows "d_less ar (v_score (vtab (rescore ar st) a)) (v_score (vtab (rescore ar st) b)) \<and>
         scinc (rescore ar st) = d_one ar"
  using assms by (simp add: rescore_def)

theorem rescore_order_witness:
  "d_less real_arith (v_score (vtab ex_scores 2)) (v_score (vtab ex_scores 3)) \<and>
   v_score (vtab (rescore real_arith ex_scores) 2) = 1 \<and>
   v_score (vtab (rescore real_arith ex_scores) 3) = 3 / 2 \<and>
   d_less real_arith (v_score (vtab (rescore real_arith ex_scores) 2))
     (v_score (vtab (rescore real_arith ex_scores) 3)) \<and>
   scinc (rescore real_arith ex_scores) = 1"
proof -
  have mono: "\<forall>x y. d_less real_arith x y \<longrightarrow>
      d_less real_arith (d_div real_arith x (scinc ex_scores))
        (d_div real_arith y (scinc ex_scores))"
    by (simp add: real_arith_def ex_scores_def divide_strict_right_mono)
  have r: "1 \<le> (2::nat) \<and> 2 \<le> max_var ex_scores" "1 \<le> (3::nat) \<and> 3 \<le> max_var ex_scores"
    by (simp_all add: ex_scores_def ex_defs)
  have l: "d_less real_arith (v_score (vtab ex_scores 2)) (v_score (vtab ex_scores 3))"
    by (simp add: ex_scores_def ex_defs)
  have v: "v_score (vtab (rescore real_arith ex_scores) 2) = 1"
    "v_score (vtab (rescore real_arith ex_scores) 3) = 3 / 2"
    by (simp_all add: rescore_def ex_scores_def ex_defs)
  from rescore_order [OF mono r l] l v show ?thesis
    by (simp add: real_arith_def)
qed

end
